theory Spec2Isabelle
  imports Main "HOL-Library.AList" "HOL-Library.Monad_Syntax"
begin

section \<open>Day 3 of 2018: overlapping fabric claims\<close>

text \<open>
  The program \<^verbatim>\<open>2018/Python/Challenges/Day3.py\<close> reads one claim per line
  (\<^verbatim>\<open>#<id> @ <x>,<y>: <w>x<h>\<close>), adds one to every cell of a 1000 by 1000 grid that a
  claim covers, prints how many cells ended above one, and prints the id of the first
  claim all of whose cells ended at exactly one.

  The input file is modelled by the list of its lines. The file is opened in text
  mode, so a line is a Python \<^verbatim>\<open>str\<close>: a sequence of Unicode code points, not of
  bytes. The five fields come from \<^verbatim>\<open>\d+\<close> and can carry no sign, so they are natural
  numbers, and \<^verbatim>\<open>int\<close> reads an unbounded decimal number; the counters of the grid
  are Python integers.
\<close>

subsection \<open>Exceptions and printed lines\<close>

text \<open>
  \<^verbatim>\<open>AttributeError\<close> is what \<^verbatim>\<open>pattern.search(line).groups()\<close> raises when the search
  returns \<^verbatim>\<open>None\<close>; \<^verbatim>\<open>IndexError\<close> is an access outside the grid. Neither is caught
  anywhere in the program, so either one ends the run.
\<close>

datatype error = AttributeError | IndexError

text \<open>
  The two \<^verbatim>\<open>print\<close> calls: \<^verbatim>\<open>Part one count: n\<close> and \<^verbatim>\<open>Part two ID: n\<close>.
\<close>

datatype printed_line = PartOne int | PartTwo nat

subsection \<open>The grid container\<close>

text \<open>
  Modelled from the spec: the class \<^verbatim>\<open>Grid\<close> of the module \<^verbatim>\<open>Utils\<close>, which the
  program imports and whose source is not among the files. The spec describes it as a
  fixed-size width by height dense array, addressable by (x, y), every cell initialised
  to the given value, with accesses outside the dimensions being out of bounds. The
  cells are kept row by row.
\<close>

record 'a Grid =
  grid_width :: nat
  grid_height :: nat
  grid_cells :: "'a list"

text \<open>Modelled from the spec: the constructor \<^verbatim>\<open>Grid(width, height, default)\<close>.\<close>

definition new_Grid :: "nat \<Rightarrow> nat \<Rightarrow> 'a \<Rightarrow> 'a Grid" where
  "new_Grid w h d = \<lparr>grid_width = w, grid_height = h, grid_cells = replicate (w * h) d\<rparr>"

text \<open>Modelled from the spec: which coordinate pairs address a cell of the grid.\<close>

definition in_grid :: "'a Grid \<Rightarrow> nat \<times> nat \<Rightarrow> bool" where
  "in_grid g p = (fst p < grid_width g \<and> snd p < grid_height g)"

text \<open>Modelled from the spec: the position of the cell (x, y) in the dense array.\<close>

definition grid_index :: "'a Grid \<Rightarrow> nat \<times> nat \<Rightarrow> nat" where
  "grid_index g p = snd p * grid_width g + fst p"

text \<open>Modelled from the spec: \<^verbatim>\<open>grid[(x, y)]\<close>, a read that changes nothing.\<close>

definition grid_getitem :: "'a Grid \<Rightarrow> nat \<times> nat \<Rightarrow> error + 'a" where
  "grid_getitem g p =
     (if in_grid g p then Inr (grid_cells g ! grid_index g p) else Inl IndexError)"

text \<open>Modelled from the spec: \<^verbatim>\<open>grid[(x, y)] = v\<close>, which replaces one cell.\<close>

definition grid_setitem :: "'a Grid \<Rightarrow> nat \<times> nat \<Rightarrow> 'a \<Rightarrow> error + 'a Grid" where
  "grid_setitem g p v =
     (if in_grid g p then Inr (g\<lparr>grid_cells := (grid_cells g)[grid_index g p := v]\<rparr>)
      else Inl IndexError)"

text \<open>Modelled from the spec: iterating over the grid visits every cell once.\<close>

definition grid_iter :: "'a Grid \<Rightarrow> 'a list" where
  "grid_iter g = grid_cells g"

subsection \<open>The regular expression and the parser (lines 20 and 32)\<close>

type_synonym codepoint = nat

type_synonym ustr = "codepoint list"

text \<open>The code points of a text written in ASCII, such as the literals of the pattern.\<close>

definition ascii :: "string \<Rightarrow> ustr" where
  "ascii s = map of_char s"

text \<open>
  In a \<^verbatim>\<open>str\<close> pattern \<^verbatim>\<open>\d\<close> is every Unicode decimal digit (general category Nd),
  not only 0 to 9, and \<^verbatim>\<open>int\<close> reads every one of them with its decimal value. The
  decimal digits come in runs of ten consecutive code points, the digits zero to nine of
  one script. These are the code points of the zeros, from the character database of
  Unicode 14.0.0 (the one of CPython 3.11): 48 is the ASCII digit 0, 1632 the
  Arabic-Indic digit zero, and so on up to the segmented digits at 130032. An
  interpreter with an older database knows the first of these runs and not the last.
\<close>

definition nd_zeros :: "codepoint list" where
  "nd_zeros =
     [48, 1632, 1776, 1984, 2406, 2534, 2662, 2790, 2918, 3046, 3174, 3302, 3430, 3558,
      3664, 3792, 3872, 4160, 4240, 6112, 6160, 6470, 6608, 6784, 6800, 6992, 7088, 7232,
      7248, 42528, 43216, 43264, 43472, 43504, 43600, 44016, 65296, 66720, 68912, 69734,
      69872, 69942, 70096, 70384, 70736, 70864, 71248, 71360, 71472, 71904, 72016, 72784,
      73040, 73120, 92768, 92864, 93008, 120782, 120792, 120802, 120812, 120822, 123200,
      123632, 125264, 130032]"

text \<open>The zero of the run of digits that holds a code point, if there is one.\<close>

definition digit_zero :: "codepoint \<Rightarrow> codepoint option" where
  "digit_zero c = find (\<lambda>z. z \<le> c \<and> c < z + 10) nd_zeros"

definition is_digit :: "codepoint \<Rightarrow> bool" where
  "is_digit c = (digit_zero c \<noteq> None)"

text \<open>
  The decimal value of a digit. The parser asks for it on the code points of a group
  only, which are all digits.
\<close>

definition digit_val :: "codepoint \<Rightarrow> nat" where
  "digit_val c = (case digit_zero c of None \<Rightarrow> 0 | Some z \<Rightarrow> c - z)"

text \<open>\<^verbatim>\<open>int(s)\<close> on a string of decimal digits.\<close>

definition py_int :: "ustr \<Rightarrow> nat" where
  "py_int s = foldl (\<lambda>n c. 10 * n + digit_val c) 0 s"

text \<open>A literal piece of the pattern: it must stand at the front of the text.\<close>

fun lit :: "ustr \<Rightarrow> ustr \<Rightarrow> ustr option" where
  "lit [] s = Some s"
| "lit (c # cs) [] = None"
| "lit (c # cs) (d # ds) = (if c = d then lit cs ds else None)"

text \<open>
  A group \<^verbatim>\<open>(\d+)\<close>: the longest run of digits at the front, which must not be empty.
  In this pattern every group but the last is followed by a character that is not a
  digit, so giving digits back can never turn a failed match into a match, and the
  greedy run is the group the backtracking matcher reports.
\<close>

definition digits :: "ustr \<Rightarrow> (ustr \<times> ustr) option" where
  "digits s = (if takeWhile is_digit s = [] then None
               else Some (takeWhile is_digit s, dropWhile is_digit s))"

type_synonym groups = "ustr \<times> ustr \<times> ustr \<times> ustr \<times> ustr"

text \<open>The pattern \<^verbatim>\<open>#(\d+) @ (\d+),(\d+): (\d+)x(\d+)\<close> tried at the front of a text.\<close>

definition match_at :: "ustr \<Rightarrow> groups option" where
  "match_at s = do {
     s1 \<leftarrow> lit (ascii ''#'') s;
     (a, s2) \<leftarrow> digits s1;
     s3 \<leftarrow> lit (ascii '' @ '') s2;
     (b, s4) \<leftarrow> digits s3;
     s5 \<leftarrow> lit (ascii '','') s4;
     (c, s6) \<leftarrow> digits s5;
     s7 \<leftarrow> lit (ascii '': '') s6;
     (d, s8) \<leftarrow> digits s7;
     s9 \<leftarrow> lit (ascii ''x'') s8;
     (e, s10) \<leftarrow> digits s9;
     Some (a, b, c, d, e)
   }"

text \<open>
  \<^verbatim>\<open>pattern.search(line)\<close>: the pattern is tried at every position from the left, and
  the first position where it matches gives the groups; \<^verbatim>\<open>None\<close> when there is none.
\<close>

fun search :: "ustr \<Rightarrow> groups option" where
  "search [] = match_at []"
| "search (c # cs) = (case match_at (c # cs) of Some g \<Rightarrow> Some g | None \<Rightarrow> search cs)"

type_synonym Rect = "nat \<times> nat \<times> nat \<times> nat"

text \<open>
  Line 32: \<^verbatim>\<open>req, x, y, w, h = map(int, pattern.search(line).groups())\<close>. There is no
  check of the search's result, so a line without a match raises.
\<close>

definition parse_line :: "ustr \<Rightarrow> error + (nat \<times> Rect)" where
  "parse_line line =
     (case search line of
        None \<Rightarrow> Inl AttributeError
      | Some (a, b, c, d, e) \<Rightarrow> Inr (py_int a, py_int b, py_int c, py_int d, py_int e))"

subsection \<open>Accumulation (lines 36 to 38)\<close>

text \<open>The inner loop \<^verbatim>\<open>for j in range(y, y + h): fabric[(i, j)] += 1\<close>.\<close>

fun inc_col :: "int Grid \<Rightarrow> nat \<Rightarrow> nat list \<Rightarrow> error + int Grid" where
  "inc_col g i [] = Inr g"
| "inc_col g i (j # js) =
     (case grid_getitem g (i, j) of
        Inl e \<Rightarrow> Inl e
      | Inr v \<Rightarrow>
          (case grid_setitem g (i, j) (v + 1) of
             Inl e \<Rightarrow> Inl e
           | Inr g' \<Rightarrow> inc_col g' i js))"

text \<open>The outer loop \<^verbatim>\<open>for i in range(x, x + w)\<close>.\<close>

fun inc_rect :: "int Grid \<Rightarrow> nat list \<Rightarrow> nat list \<Rightarrow> error + int Grid" where
  "inc_rect g [] js = Inr g"
| "inc_rect g (i # is) js =
     (case inc_col g i js of
        Inl e \<Rightarrow> Inl e
      | Inr g' \<Rightarrow> inc_rect g' is js)"

definition accumulate :: "int Grid \<Rightarrow> Rect \<Rightarrow> error + int Grid" where
  "accumulate g r =
     (case r of (x, y, w, h) \<Rightarrow> inc_rect g [x ..< x + w] [y ..< y + h])"

subsection \<open>The program state and the reading loop (lines 17 to 38)\<close>

text \<open>
  \<^verbatim>\<open>claims\<close> is a Python dictionary. Iteration follows the order in which the keys
  were first inserted, and assigning to a key that is present replaces its value where
  it stands: an association list under \<^const>\<open>AList.update\<close>.
\<close>

record state =
  fabric :: "int Grid"
  claims :: "(nat \<times> Rect) list"
  printed :: "printed_line list"

definition width :: nat where
  "width = 1000"

definition init_state :: state where
  "init_state = \<lparr>fabric = new_Grid width width 0, claims = [], printed = []\<rparr>"

text \<open>The body of \<^verbatim>\<open>for line in f\<close>.\<close>

definition read_line :: "state \<Rightarrow> ustr \<Rightarrow> error + state" where
  "read_line st line =
     (case parse_line line of
        Inl e \<Rightarrow> Inl e
      | Inr (req, r) \<Rightarrow>
          (let cs = AList.update req r (claims st) in
           case accumulate (fabric st) r of
             Inl e \<Rightarrow> Inl e
           | Inr g \<Rightarrow> Inr (st\<lparr>fabric := g, claims := cs\<rparr>)))"

fun read_file :: "state \<Rightarrow> ustr list \<Rightarrow> error + state" where
  "read_file st [] = Inr st"
| "read_file st (l # ls) =
     (case read_line st l of
        Inl e \<Rightarrow> Inl e
      | Inr st' \<Rightarrow> read_file st' ls)"

subsection \<open>Part one (lines 41 and 42)\<close>

text \<open>\<^verbatim>\<open>count = sum(1 for i in fabric if i > 1)\<close>, then the print.\<close>

definition part_one :: "state \<Rightarrow> state" where
  "part_one st =
     (let count = sum_list (map (\<lambda>i. 1) (filter (\<lambda>i. i > 1) (grid_iter (fabric st))))
      in st\<lparr>printed := printed st @ [PartOne count]\<rparr>)"

subsection \<open>Part two (lines 45 to 58)\<close>

text \<open>
  The inner loop. \<^const>\<open>False\<close> is the \<^verbatim>\<open>break\<close> at a cell that is not 1;
  \<^const>\<open>True\<close> is the loop's \<^verbatim>\<open>else\<close>, reached when the loop ran to its end.
\<close>

fun check_col :: "int Grid \<Rightarrow> nat \<Rightarrow> nat list \<Rightarrow> error + bool" where
  "check_col g i [] = Inr True"
| "check_col g i (j # js) =
     (case grid_getitem g (i, j) of
        Inl e \<Rightarrow> Inl e
      | Inr v \<Rightarrow> if v \<noteq> 1 then Inr False else check_col g i js)"

text \<open>
  The outer loop: it goes on after an inner loop that ran to its end (\<^verbatim>\<open>continue\<close>)
  and breaks after one that broke. \<^const>\<open>True\<close> is its \<^verbatim>\<open>else\<close>: a match.
\<close>

fun check_rect :: "int Grid \<Rightarrow> nat list \<Rightarrow> nat list \<Rightarrow> error + bool" where
  "check_rect g [] js = Inr True"
| "check_rect g (i # is) js =
     (case check_col g i js of
        Inl e \<Rightarrow> Inl e
      | Inr ok \<Rightarrow> if ok then check_rect g is js else Inr False)"

text \<open>
  \<^verbatim>\<open>for req, (x, y, w, h) in claims.items()\<close>: the first claim that matches is
  returned, and the \<^verbatim>\<open>return\<close> of line 58 leaves the rest unvisited.
\<close>

fun find_claim :: "int Grid \<Rightarrow> (nat \<times> Rect) list \<Rightarrow> error + nat option" where
  "find_claim g [] = Inr None"
| "find_claim g ((req, x, y, w, h) # cs) =
     (case check_rect g [x ..< x + w] [y ..< y + h] of
        Inl e \<Rightarrow> Inl e
      | Inr ok \<Rightarrow> if ok then Inr (Some req) else find_claim g cs)"

definition part_two :: "state \<Rightarrow> error + state" where
  "part_two st =
     (case find_claim (fabric st) (claims st) of
        Inl e \<Rightarrow> Inl e
      | Inr None \<Rightarrow> Inr st
      | Inr (Some req) \<Rightarrow> Inr (st\<lparr>printed := printed st @ [PartTwo req]\<rparr>))"

subsection \<open>The entry point\<close>

text \<open>
  \<^verbatim>\<open>main\<close> on the lines of the input file: what was printed, and the exception that
  ended the run (\<^const>\<open>None\<close> when it ended normally). An exception while reading
  comes before any print; one in part two would come after the first line.
\<close>

definition main :: "ustr list \<Rightarrow> printed_line list \<times> error option" where
  "main lines =
     (case read_file init_state lines of
        Inl e \<Rightarrow> ([], Some e)
      | Inr st \<Rightarrow>
          (let st1 = part_one st in
           case part_two st1 of
             Inl e \<Rightarrow> (printed st1, Some e)
           | Inr st2 \<Rightarrow> (printed st2, None)))"

subsection \<open>Reference notions the program is compared with\<close>

text \<open>A string of one or more decimal digits.\<close>

definition digit_string :: "ustr \<Rightarrow> bool" where
  "digit_string s = (s \<noteq> [] \<and> list_all is_digit s)"

text \<open>The text \<^verbatim>\<open>#<id> @ <x>,<y>: <w>x<h>\<close> with whitespace exactly as shown.\<close>

definition claim_text :: "ustr \<Rightarrow> ustr \<Rightarrow> ustr \<Rightarrow> ustr \<Rightarrow> ustr \<Rightarrow> ustr" where
  "claim_text a b c d e =
     ascii ''#'' @ a @ ascii '' @ '' @ b @ ascii '','' @ c @ ascii '': '' @ d @ ascii ''x'' @ e"



text \<open>The cells of the rectangle: x .. x + w - 1 by y .. y + h - 1.\<close>

definition in_rect :: "Rect \<Rightarrow> nat \<times> nat \<Rightarrow> bool" where
  "in_rect r p =
     (case r of (x, y, w, h) \<Rightarrow> x \<le> fst p \<and> fst p < x + w \<and> y \<le> snd p \<and> snd p < y + h)"

text \<open>The content of the cell that a coordinate pair inside the grid addresses.\<close>

definition cell_of :: "'a Grid \<Rightarrow> nat \<times> nat \<Rightarrow> 'a" where
  "cell_of g p = grid_cells g ! grid_index g p"

text \<open>The rectangle lies inside a grid.\<close>

definition fits :: "'a Grid \<Rightarrow> Rect \<Rightarrow> bool" where
  "fits g r = (case r of (x, y, w, h) \<Rightarrow> x + w \<le> grid_width g \<and> y + h \<le> grid_height g)"

text \<open>The rectangle lies inside the 1000 by 1000 grid.\<close>

definition inside :: "Rect \<Rightarrow> bool" where
  "inside r = (case r of (x, y, w, h) \<Rightarrow> x + w \<le> width \<and> y + h \<le> width)"

text \<open>The number of claims of a list whose rectangle contains the cell.\<close>

definition cover :: "(nat \<times> Rect) list \<Rightarrow> nat \<times> nat \<Rightarrow> int" where
  "cover cs p = int (length (filter (\<lambda>c. in_rect (snd c) p) cs))"

text \<open>The cells of a rectangle, as a list.\<close>

definition rect_cells :: "Rect \<Rightarrow> (nat \<times> nat) list" where
  "rect_cells r = (case r of (x, y, w, h) \<Rightarrow> List.product [x ..< x + w] [y ..< y + h])"

text \<open>A claim none of whose cells is shared or left out: every cell is covered once.\<close>

definition unshared :: "(nat \<times> Rect) list \<Rightarrow> nat \<times> Rect \<Rightarrow> bool" where
  "unshared cs c = list_all (\<lambda>p. cover cs p = 1) (rect_cells (snd c))"

text \<open>The cells that two or more claims of the list cover, each listed once.\<close>

definition overlap_cells :: "(nat \<times> Rect) list \<Rightarrow> (nat \<times> nat) list" where
  "overlap_cells cs =
     filter (\<lambda>p. cover cs p > 1) (remdups (concat (map (\<lambda>c. rect_cells (snd c)) cs)))"

text \<open>The dictionary that assigning the claims one after the other builds.\<close>

definition dict_of :: "(nat \<times> Rect) list \<Rightarrow> (nat \<times> Rect) list" where
  "dict_of cs = foldl (\<lambda>d c. AList.update (fst c) (snd c) d) [] cs"

text \<open>The grid holds as many cells as its dimensions say.\<close>

definition wf_grid :: "'a Grid \<Rightarrow> bool" where
  "wf_grid g = (length (grid_cells g) = grid_width g * grid_height g)"

text \<open>The three claims of the puzzle's example, one per line.\<close>

definition example_lines :: "ustr list" where
  "example_lines = [ascii ''#1 @ 1,3: 4x4'', ascii ''#2 @ 3,1: 4x4'', ascii ''#3 @ 5,5: 2x2'']"

section \<open>The parser\<close>

text \<open>
  Below 1632 the decimal digits are the ASCII ones. The proofs about the parser use the
  table of digits through this fact alone: the characters the pattern spells out are
  not digits.
\<close>

lemma is_digit_low: "c < 1632 \<Longrightarrow> is_digit c \<longleftrightarrow> 48 \<le> c \<and> c \<le> 57"
  by (auto simp: is_digit_def digit_zero_def nd_zeros_def)

lemma digit_val_low: "48 \<le> c \<Longrightarrow> c \<le> 57 \<Longrightarrow> digit_val c = c - 48"
  by (simp add: digit_val_def digit_zero_def nd_zeros_def)

text \<open>The Arabic-Indic digit one, code point 1633, is a digit of value 1.\<close>

lemma arabic_indic_one: "is_digit 1633" "digit_val 1633 = 1"
  by (simp_all add: is_digit_def digit_val_def digit_zero_def nd_zeros_def)



lemma digits_append_cons:
  assumes "digit_string d" "\<not> is_digit c"
  shows "digits (d @ c # r) = Some (d, c # r)"
proof -
  from assms(1) have all: "\<forall>x\<in>set d. is_digit x" and ne: "d \<noteq> []"
    by (auto simp: digit_string_def list_all_iff)
  from all assms(2) have "takeWhile is_digit (d @ c # r) = d" "dropWhile is_digit (d @ c # r) = c # r"
    by simp_all
  with ne show ?thesis by (simp add: digits_def)
qed

lemma digits_append_greedy:
  assumes "digit_string e"
  shows "digits (e @ post) = Some (e @ takeWhile is_digit post, dropWhile is_digit post)"
proof -
  from assms have all: "\<forall>x\<in>set e. is_digit x" and ne: "e \<noteq> []"
    by (auto simp: digit_string_def list_all_iff)
  from all have "takeWhile is_digit (e @ post) = e @ takeWhile is_digit post"
    "dropWhile is_digit (e @ post) = dropWhile is_digit post"
    by simp_all
  with ne show ?thesis by (simp add: digits_def)
qed

lemma not_digit_sep:
  "\<not> is_digit 32" "\<not> is_digit 44" "\<not> is_digit 58" "\<not> is_digit 120"
  by (simp_all add: is_digit_low)

lemma match_at_claim_text:
  assumes "digit_string a" "digit_string b" "digit_string c" "digit_string d" "digit_string e"
  shows "match_at (claim_text a b c d e @ post) = Some (a, b, c, d, e @ takeWhile is_digit post)"
  using assms
  by (simp add: match_at_def claim_text_def ascii_def digits_append_cons digits_append_greedy
      not_digit_sep)


section \<open>The grid\<close>

lemma grid_index_less:
  assumes "wf_grid g" "in_grid g p"
  shows "grid_index g p < length (grid_cells g)"
proof -
  from assms(2) have i: "fst p < grid_width g" and j: "snd p < grid_height g"
    by (simp_all add: in_grid_def)
  from j have "Suc (snd p) \<le> grid_height g" by simp
  then have "Suc (snd p) * grid_width g \<le> grid_height g * grid_width g"
    by (rule mult_le_mono1)
  with i have "snd p * grid_width g + fst p < grid_height g * grid_width g" by simp
  with assms(1) show ?thesis by (simp add: grid_index_def wf_grid_def mult.commute)
qed

lemma grid_index_inj:
  assumes "in_grid g p" "in_grid g q" "grid_index g p = grid_index g q"
  shows "p = q"
proof -
  let ?w = "grid_width g"
  from assms(1,2) have i: "fst p < ?w" "fst q < ?w" by (simp_all add: in_grid_def)
  from assms(3) have eq: "snd p * ?w + fst p = snd q * ?w + fst q"
    by (simp add: grid_index_def)
  from eq have "(snd p * ?w + fst p) div ?w = (snd q * ?w + fst q) div ?w" by simp
  with i have s: "snd p = snd q" by simp
  with eq have "fst p = fst q" by simp
  with s show ?thesis by (simp add: prod_eq_iff)
qed

lemma grid_getitem_cell: "in_grid g p \<Longrightarrow> grid_getitem g p = Inr (cell_of g p)"
  by (simp add: grid_getitem_def cell_of_def)

lemma grid_getitem_outside: "\<not> in_grid g p \<Longrightarrow> grid_getitem g p = Inl IndexError"
  by (simp add: grid_getitem_def)

lemma grid_setitem_ok:
  assumes "wf_grid g" "in_grid g p"
  shows "\<exists>g'. grid_setitem g p v = Inr g' \<and> wf_grid g' \<and> grid_width g' = grid_width g \<and>
           grid_height g' = grid_height g \<and>
           (\<forall>q. in_grid g q \<longrightarrow> cell_of g' q = (if q = p then v else cell_of g q))"
proof -
  let ?g = "g\<lparr>grid_cells := (grid_cells g)[grid_index g p := v]\<rparr>"
  have set: "grid_setitem g p v = Inr ?g"
    using assms(2) by (simp add: grid_setitem_def)
  have wf: "wf_grid ?g" using assms(1) by (simp add: wf_grid_def)
  have cells: "cell_of ?g q = (if q = p then v else cell_of g q)" if "in_grid g q" for q
  proof (cases "q = p")
    case True
    with grid_index_less [OF assms] show ?thesis
      by (simp add: cell_of_def grid_index_def)
  next
    case False
    with grid_index_inj [OF that assms(2)] have "grid_index g q \<noteq> grid_index g p" by blast
    with False show ?thesis
      by (simp add: cell_of_def grid_index_def)
  qed
  from set wf cells show ?thesis by auto
qed

lemma inc_col_ok:
  assumes "wf_grid g" "i < grid_width g" "\<forall>j\<in>set js. j < grid_height g" "distinct js"
  shows "\<exists>g'. inc_col g i js = Inr g' \<and> wf_grid g' \<and> grid_width g' = grid_width g \<and>
           grid_height g' = grid_height g \<and>
           (\<forall>q. in_grid g q \<longrightarrow>
              cell_of g' q = cell_of g q + (if fst q = i \<and> snd q \<in> set js then 1 else 0))"
  using assms
proof (induction js arbitrary: g)
  case Nil
  then show ?case by simp
next
  case (Cons j js)
  from Cons.prems have ij: "in_grid g (i, j)" by (simp add: in_grid_def)
  from grid_setitem_ok [OF Cons.prems(1) ij, of "cell_of g (i, j) + 1"]
  obtain g1 where g1: "grid_setitem g (i, j) (cell_of g (i, j) + 1) = Inr g1" "wf_grid g1"
      "grid_width g1 = grid_width g" "grid_height g1 = grid_height g"
      "\<forall>q. in_grid g q \<longrightarrow> cell_of g1 q = (if q = (i, j) then cell_of g (i, j) + 1 else cell_of g q)"
    by blast
  from Cons.prems g1 have "\<exists>g'. inc_col g1 i js = Inr g' \<and> wf_grid g' \<and> grid_width g' = grid_width g1 \<and>
           grid_height g' = grid_height g1 \<and>
           (\<forall>q. in_grid g1 q \<longrightarrow>
              cell_of g' q = cell_of g1 q + (if fst q = i \<and> snd q \<in> set js then 1 else 0))"
    by (intro Cons.IH) simp_all
  then obtain g2 where g2: "inc_col g1 i js = Inr g2" "wf_grid g2" "grid_width g2 = grid_width g1"
      "grid_height g2 = grid_height g1"
      "\<forall>q. in_grid g1 q \<longrightarrow>
              cell_of g2 q = cell_of g1 q + (if fst q = i \<and> snd q \<in> set js then 1 else 0)"
    by blast
  have same: "in_grid g1 q = in_grid g q" for q
    using g1 by (simp add: in_grid_def)
  have run: "inc_col g i (j # js) = Inr g2"
    using ij g1(1) g2(1) by (simp add: grid_getitem_cell)
  have cells: "cell_of g2 q = cell_of g q + (if fst q = i \<and> snd q \<in> set (j # js) then 1 else 0)"
    if "in_grid g q" for q
  proof -
    from that same have "in_grid g1 q" by simp
    with g2(5) have "cell_of g2 q = cell_of g1 q + (if fst q = i \<and> snd q \<in> set js then 1 else 0)"
      by blast
    moreover from that g1(5)
    have "cell_of g1 q = (if q = (i, j) then cell_of g (i, j) + 1 else cell_of g q)" by blast
    ultimately show ?thesis
      using Cons.prems(4) by (cases q) auto
  qed
  from run g2 g1 cells show ?case by auto
qed

section \<open>Accumulation and the reading loop\<close>

lemma inc_rect_ok:
  assumes "wf_grid g" "\<forall>i\<in>set is. i < grid_width g" "\<forall>j\<in>set js. j < grid_height g"
    "distinct is" "distinct js"
  shows "\<exists>g'. inc_rect g is js = Inr g' \<and> wf_grid g' \<and> grid_width g' = grid_width g \<and>
           grid_height g' = grid_height g \<and>
           (\<forall>q. in_grid g q \<longrightarrow>
              cell_of g' q = cell_of g q + (if fst q \<in> set is \<and> snd q \<in> set js then 1 else 0))"
  using assms
proof (induction "is" arbitrary: g)
  case Nil
  then show ?case by simp
next
  case (Cons i "is")
  from Cons.prems have i: "i < grid_width g" by simp
  from inc_col_ok [OF Cons.prems(1) i Cons.prems(3) Cons.prems(5)]
  obtain g1 where g1: "inc_col g i js = Inr g1" "wf_grid g1"
      "grid_width g1 = grid_width g" "grid_height g1 = grid_height g"
      "\<forall>q. in_grid g q \<longrightarrow>
          cell_of g1 q = cell_of g q + (if fst q = i \<and> snd q \<in> set js then 1 else 0)"
    by blast
  from Cons.prems g1 have "\<exists>g'. inc_rect g1 is js = Inr g' \<and> wf_grid g' \<and>
           grid_width g' = grid_width g1 \<and> grid_height g' = grid_height g1 \<and>
           (\<forall>q. in_grid g1 q \<longrightarrow>
              cell_of g' q = cell_of g1 q + (if fst q \<in> set is \<and> snd q \<in> set js then 1 else 0))"
    by (intro Cons.IH) simp_all
  then obtain g2 where g2: "inc_rect g1 is js = Inr g2" "wf_grid g2" "grid_width g2 = grid_width g1"
      "grid_height g2 = grid_height g1"
      "\<forall>q. in_grid g1 q \<longrightarrow>
          cell_of g2 q = cell_of g1 q + (if fst q \<in> set is \<and> snd q \<in> set js then 1 else 0)"
    by blast
  have same: "in_grid g1 q = in_grid g q" for q
    using g1 by (simp add: in_grid_def)
  have run: "inc_rect g (i # is) js = Inr g2"
    using g1(1) g2(1) by simp
  have cells: "cell_of g2 q = cell_of g q + (if fst q \<in> set (i # is) \<and> snd q \<in> set js then 1 else 0)"
    if "in_grid g q" for q
  proof -
    from that same have "in_grid g1 q" by simp
    with g2(5) have "cell_of g2 q = cell_of g1 q + (if fst q \<in> set is \<and> snd q \<in> set js then 1 else 0)"
      by blast
    moreover from that g1(5)
    have "cell_of g1 q = cell_of g q + (if fst q = i \<and> snd q \<in> set js then 1 else 0)" by blast
    ultimately show ?thesis
      using Cons.prems(4) by auto
  qed
  from run g2 g1 cells show ?case by auto
qed

lemma accumulate_ok:
  assumes "wf_grid g" "fits g r"
  shows "\<exists>g'. accumulate g r = Inr g' \<and> wf_grid g' \<and> grid_width g' = grid_width g \<and>
           grid_height g' = grid_height g \<and>
           (\<forall>q. in_grid g q \<longrightarrow> cell_of g' q = cell_of g q + (if in_rect r q then 1 else 0))"
proof -
  obtain x y w h where r: "r = (x, y, w, h)" by (cases r) auto
  from assms(2) r have b: "\<forall>i\<in>set [x ..< x + w]. i < grid_width g"
      "\<forall>j\<in>set [y ..< y + h]. j < grid_height g"
    by (auto simp: fits_def)
  have m: "(fst q \<in> set [x ..< x + w] \<and> snd q \<in> set [y ..< y + h]) = in_rect r q" for q
    by (auto simp: r in_rect_def)
  from inc_rect_ok [OF assms(1) b distinct_upt distinct_upt]
  show ?thesis unfolding m by (simp add: accumulate_def r)
qed

lemma cover_Nil: "cover [] p = 0"
  by (simp add: cover_def)

lemma cover_Cons: "cover (c # cs) p = (if in_rect (snd c) p then 1 else 0) + cover cs p"
  by (simp add: cover_def)

lemma read_file_ok:
  assumes "wf_grid (fabric st)" "map parse_line lines = map Inr cs"
    "\<forall>c\<in>set cs. fits (fabric st) (snd c)"
  shows "\<exists>st'. read_file st lines = Inr st' \<and> wf_grid (fabric st') \<and>
           grid_width (fabric st') = grid_width (fabric st) \<and>
           grid_height (fabric st') = grid_height (fabric st) \<and>
           claims st' = foldl (\<lambda>d c. AList.update (fst c) (snd c) d) (claims st) cs \<and>
           printed st' = printed st \<and>
           (\<forall>q. in_grid (fabric st) q \<longrightarrow>
              cell_of (fabric st') q = cell_of (fabric st) q + cover cs q)"
  using assms
proof (induction lines arbitrary: st cs)
  case Nil
  then show ?case by (simp add: cover_Nil)
next
  case (Cons l ls)
  from Cons.prems(2) obtain c cs' where cs: "cs = c # cs'" and l: "parse_line l = Inr c"
      and ls: "map parse_line ls = map Inr cs'"
    by (cases cs) auto
  from Cons.prems(3) cs have fit: "fits (fabric st) (snd c)" by simp
  from accumulate_ok [OF Cons.prems(1) fit]
  obtain g1 where g1: "accumulate (fabric st) (snd c) = Inr g1" "wf_grid g1"
      "grid_width g1 = grid_width (fabric st)" "grid_height g1 = grid_height (fabric st)"
      "\<forall>q. in_grid (fabric st) q \<longrightarrow>
          cell_of g1 q = cell_of (fabric st) q + (if in_rect (snd c) q then 1 else 0)"
    by blast
  define st1 where "st1 = st\<lparr>fabric := g1, claims := AList.update (fst c) (snd c) (claims st)\<rparr>"
  have step: "read_line st l = Inr st1"
    using l g1(1) by (cases c) (simp add: read_line_def st1_def)
  have fits1: "\<forall>c\<in>set cs'. fits (fabric st1) (snd c)"
    using Cons.prems(3) cs g1(3,4) by (simp add: st1_def fits_def)
  have wf1: "wf_grid (fabric st1)" using g1(2) by (simp add: st1_def)
  from Cons.IH [OF wf1 ls fits1]
  obtain st2 where st2: "read_file st1 ls = Inr st2" "wf_grid (fabric st2)"
      "grid_width (fabric st2) = grid_width (fabric st1)"
      "grid_height (fabric st2) = grid_height (fabric st1)"
      "claims st2 = foldl (\<lambda>d c. AList.update (fst c) (snd c) d) (claims st1) cs'"
      "printed st2 = printed st1"
      "\<forall>q. in_grid (fabric st1) q \<longrightarrow> cell_of (fabric st2) q = cell_of (fabric st1) q + cover cs' q"
    by blast
  have run: "read_file st (l # ls) = Inr st2"
    using step st2(1) by simp
  have cells: "cell_of (fabric st2) q = cell_of (fabric st) q + cover cs q"
    if "in_grid (fabric st) q" for q
  proof -
    from that g1(3,4) have "in_grid (fabric st1) q" by (simp add: in_grid_def st1_def)
    with st2(7) have "cell_of (fabric st2) q = cell_of (fabric st1) q + cover cs' q" by blast
    moreover from that g1(5)
    have "cell_of g1 q = cell_of (fabric st) q + (if in_rect (snd c) q then 1 else 0)"
      by blast
    then have "cell_of (fabric st1) q = cell_of (fabric st) q + (if in_rect (snd c) q then 1 else 0)"
      by (simp add: st1_def)
    ultimately show ?thesis by (simp add: cs cover_Cons)
  qed
  from run st2 g1 cells show ?case
    by (simp add: st1_def cs)
qed

section \<open>The two scans\<close>

lemma sum_list_ones: "sum_list (map (\<lambda>i. 1) xs) = (int (length xs))"
  by (induction xs) simp_all

lemma grid_index_image:
  assumes "wf_grid g"
  shows "grid_index g ` {p. in_grid g p \<and> P (cell_of g p)} =
         {k. k < length (grid_cells g) \<and> P (grid_cells g ! k)}"
proof (intro set_eqI iffI)
  fix k
  assume "k \<in> grid_index g ` {p. in_grid g p \<and> P (cell_of g p)}"
  then obtain p where p: "in_grid g p" "P (cell_of g p)" "k = grid_index g p" by blast
  with grid_index_less [OF assms p(1)]
  show "k \<in> {k. k < length (grid_cells g) \<and> P (grid_cells g ! k)}"
    by (simp add: cell_of_def)
next
  fix k
  assume "k \<in> {k. k < length (grid_cells g) \<and> P (grid_cells g ! k)}"
  then have k: "k < grid_width g * grid_height g" and pk: "P (grid_cells g ! k)"
    using assms by (simp_all add: wf_grid_def)
  let ?p = "(k mod grid_width g, k div grid_width g)"
  from k have pos: "0 < grid_width g" by (cases "grid_width g") simp_all
  from k have "k div grid_width g < grid_height g"
    by (simp add: less_mult_imp_div_less mult.commute)
  with pos have ing: "in_grid g ?p" by (simp add: in_grid_def)
  have idx: "grid_index g ?p = k" by (simp add: grid_index_def)
  with pk have "P (cell_of g ?p)" by (simp add: cell_of_def)
  with ing idx show "k \<in> grid_index g ` {p. in_grid g p \<and> P (cell_of g p)}"
    by (metis (mono_tags, lifting) image_eqI mem_Collect_eq)
qed

lemma count_cells:
  assumes "wf_grid g"
  shows "sum_list (map (\<lambda>i. 1) (filter P (grid_iter g))) =
         int (card {p. in_grid g p \<and> P (cell_of g p)})"
proof -
  have inj: "inj_on (grid_index g) {p. in_grid g p \<and> P (cell_of g p)}"
    by (rule inj_onI) (auto dest: grid_index_inj)
  have "length (filter P (grid_cells g)) = card {k. k < length (grid_cells g) \<and> P (grid_cells g ! k)}"
    by (rule length_filter_conv_card)
  also have "\<dots> = card (grid_index g ` {p. in_grid g p \<and> P (cell_of g p)})"
    by (simp only: grid_index_image [OF assms])
  also have "\<dots> = card {p. in_grid g p \<and> P (cell_of g p)}"
    by (rule card_image [OF inj])
  finally show ?thesis by (simp add: sum_list_ones grid_iter_def)
qed

lemma check_col_ok:
  assumes "i < grid_width g" "\<forall>j\<in>set js. j < grid_height g"
  shows "check_col g i js = Inr (\<forall>j\<in>set js. cell_of g (i, j) = 1)"
  using assms
proof (induction js)
  case Nil
  then show ?case by simp
next
  case (Cons j js)
  then have "in_grid g (i, j)" by (simp add: in_grid_def)
  with Cons show ?case by (simp add: grid_getitem_cell)
qed

lemma check_rect_ok:
  assumes "\<forall>i\<in>set is. i < grid_width g" "\<forall>j\<in>set js. j < grid_height g"
  shows "check_rect g is js = Inr (\<forall>i\<in>set is. \<forall>j\<in>set js. cell_of g (i, j) = 1)"
  using assms
proof (induction "is")
  case Nil
  then show ?case by simp
next
  case (Cons i "is")
  then show ?case by (simp add: check_col_ok)
qed

lemma check_rect_fits:
  assumes "fits g (x, y, w, h)"
  shows "check_rect g [x ..< x + w] [y ..< y + h] =
         Inr (\<forall>p. in_rect (x, y, w, h) p \<longrightarrow> cell_of g p = 1)"
proof -
  from assms have b: "\<forall>i\<in>set [x ..< x + w]. i < grid_width g"
      "\<forall>j\<in>set [y ..< y + h]. j < grid_height g"
    by (auto simp: fits_def)
  have "(\<forall>i\<in>set [x ..< x + w]. \<forall>j\<in>set [y ..< y + h]. cell_of g (i, j) = 1) =
        (\<forall>p. in_rect (x, y, w, h) p \<longrightarrow> cell_of g p = 1)"
    by (auto simp: in_rect_def)
  with check_rect_ok [OF b] show ?thesis by simp
qed

lemma find_claim_ok:
  assumes "\<forall>c\<in>set cs. fits g (snd c)"
  shows "find_claim g cs =
         Inr (map_option fst (find (\<lambda>c. \<forall>p. in_rect (snd c) p \<longrightarrow> cell_of g p = 1) cs))"
  using assms
proof (induction cs)
  case Nil
  then show ?case by simp
next
  case (Cons c cs)
  obtain req x y w h where c: "c = (req, x, y, w, h)" by (cases c) auto
  let ?ok = "\<lambda>c. \<forall>p. in_rect (snd c) p \<longrightarrow> cell_of g p = 1"
  from Cons.prems c have "fits g (x, y, w, h)" by simp
  then have chk: "check_rect g [x ..< x + w] [y ..< y + h] = Inr (?ok c)"
    by (simp only: check_rect_fits c snd_conv)
  from Cons have IH: "find_claim g cs = Inr (map_option fst (find ?ok cs))" by simp
  show ?case
  proof (cases "?ok c")
    case True
    with chk have "find_claim g (c # cs) = Inr (Some req)" by (simp only: c find_claim.simps) simp
    with True show ?thesis by (simp only: find.simps c) simp
  next
    case False
    with chk IH have "find_claim g (c # cs) = Inr (map_option fst (find ?ok cs))"
      by (simp only: c find_claim.simps) simp
    with False show ?thesis by (simp only: find.simps) simp
  qed
qed

section \<open>Searching a line and starting the run\<close>

lemma match_at_not_hash: "c \<noteq> 35 \<Longrightarrow> match_at (c # cs) = None"
  by (simp add: match_at_def ascii_def)

lemma search_skip: "35 \<notin> set pre \<Longrightarrow> search (pre @ s) = search s"
  by (induction pre) (auto simp: match_at_not_hash)

lemma search_claim_text:
  assumes "digit_string a" "digit_string b" "digit_string c" "digit_string d" "digit_string e"
  shows "search (claim_text a b c d e @ post) = Some (a, b, c, d, e @ takeWhile is_digit post)"
proof -
  obtain t where t: "claim_text a b c d e @ post = 35 # t"
    by (simp add: claim_text_def ascii_def)
  from match_at_claim_text [OF assms, of post] t
  have "match_at (35 # t) = Some (a, b, c, d, e @ takeWhile is_digit post)" by simp
  then have "search (35 # t) = Some (a, b, c, d, e @ takeWhile is_digit post)" by simp
  with t show ?thesis by simp
qed





text \<open>
  The last group is greedy over every decimal digit: an Arabic-Indic one after the
  height is part of the height.
\<close>

lemma last_field_takes_every_digit:
  "parse_line (ascii ''#1 @ 1,3: 4x4'' @ [1633, 10]) = Inr (1, 1, 3, 4, 41)"
  by (simp add: parse_line_def match_at_def digits_def ascii_def is_digit_low py_int_def
      digit_val_low arabic_indic_one)

lemma py_int_snoc: "py_int (s @ [c]) = 10 * py_int s + digit_val c"
  by (simp add: py_int_def)


lemma wf_init: "wf_grid (fabric init_state)"
  by (simp add: init_state_def new_Grid_def wf_grid_def)

lemma dims_init: "grid_width (fabric init_state) = width" "grid_height (fabric init_state) = width"
  by (simp_all add: init_state_def new_Grid_def)

lemma inside_fits:
  "grid_width g = width \<Longrightarrow> grid_height g = width \<Longrightarrow> inside r \<Longrightarrow> fits g r"
  by (auto simp: inside_def fits_def)

section \<open>The dictionary of claims and the empty grid\<close>

lemma update_fresh: "k \<notin> fst ` set al \<Longrightarrow> AList.update k v al = al @ [(k, v)]"
  by (induction al) auto

lemma set_update_subset: "set (AList.update k v al) \<subseteq> insert (k, v) (set al)"
  by (induction al) auto

lemma foldl_update_distinct:
  "distinct (map fst (d @ cs)) \<Longrightarrow>
   foldl (\<lambda>d c. AList.update (fst c) (snd c) d) d cs = d @ cs"
proof (induction cs arbitrary: d)
  case Nil
  then show ?case by simp
next
  case (Cons c cs)
  from Cons.prems have fresh: "fst c \<notin> fst ` set d" by auto
  from Cons.prems have "distinct (map fst ((d @ [c]) @ cs))" by simp
  from Cons.IH [OF this] fresh show ?case by (simp add: update_fresh)
qed

lemma foldl_update_set:
  "set (foldl (\<lambda>d c. AList.update (fst c) (snd c) d) d cs) \<subseteq> set d \<union> set cs"
proof (induction cs arbitrary: d)
  case Nil
  then show ?case by simp
next
  case (Cons c cs)
  have "set (AList.update (fst c) (snd c) d) \<subseteq> insert c (set d)"
    using set_update_subset [of "fst c" "snd c" d] by simp
  with Cons [of "AList.update (fst c) (snd c) d"] show ?case by auto
qed



lemma dict_of_distinct: "distinct (map fst cs) \<Longrightarrow> dict_of cs = cs"
  using foldl_update_distinct [of "[]" cs] by (simp add: dict_of_def)

lemma dict_of_set: "set (dict_of cs) \<subseteq> set cs"
  using foldl_update_set [of "[]" cs] by (simp add: dict_of_def)



lemma in_grid_init: "in_grid (fabric init_state) q \<longleftrightarrow> fst q < width \<and> snd q < width"
  by (simp add: in_grid_def dims_init)

lemma cell_init:
  assumes "in_grid (fabric init_state) q"
  shows "cell_of (fabric init_state) q = 0"
proof -
  from grid_index_less [OF wf_init assms]
  have "grid_index (fabric init_state) q < width * width"
    by (simp add: init_state_def new_Grid_def)
  then show ?thesis
    by (simp add: cell_of_def init_state_def new_Grid_def grid_index_def)
qed

lemma read_init:
  assumes "map parse_line lines = map Inr cs" "\<forall>c\<in>set cs. inside (snd c)"
  shows "\<exists>st. read_file init_state lines = Inr st \<and> wf_grid (fabric st) \<and>
           grid_width (fabric st) = width \<and> grid_height (fabric st) = width \<and>
           claims st = dict_of cs \<and> printed st = [] \<and>
           (\<forall>q. fst q < width \<and> snd q < width \<longrightarrow> cell_of (fabric st) q = cover cs q)"
proof -
  from assms(2) have "\<forall>c\<in>set cs. fits (fabric init_state) (snd c)"
    by (simp add: inside_fits dims_init)
  from read_file_ok [OF wf_init assms(1) this]
  obtain st where st: "read_file init_state lines = Inr st" "wf_grid (fabric st)"
      "grid_width (fabric st) = grid_width (fabric init_state)"
      "grid_height (fabric st) = grid_height (fabric init_state)"
      "claims st = foldl (\<lambda>d c. AList.update (fst c) (snd c) d) (claims init_state) cs"
      "printed st = printed init_state"
      "\<forall>q. in_grid (fabric init_state) q \<longrightarrow>
          cell_of (fabric st) q = cell_of (fabric init_state) q + cover cs q"
    by blast
  have "cell_of (fabric st) q = cover cs q" if "fst q < width \<and> snd q < width" for q
  proof -
    from that have "in_grid (fabric init_state) q" by (simp add: in_grid_init)
    with st(7) have "cell_of (fabric st) q = cell_of (fabric init_state) q + cover cs q"
      by blast
    with cell_init [OF \<open>in_grid (fabric init_state) q\<close>] show ?thesis by simp
  qed
  moreover have "claims init_state = []" "printed init_state = []"
    by (simp_all add: init_state_def)
  ultimately show ?thesis
    using st by (simp add: dims_init dict_of_def)
qed

lemma cover_nonneg: "0 \<le> cover cs p"
  by (simp add: cover_def)

lemma cover_zero_iff: "cover cs p = 0 \<longleftrightarrow> (\<forall>c\<in>set cs. \<not> in_rect (snd c) p)"
  by (simp add: cover_def filter_empty_conv)


section \<open>What a successful read preserves, and the cells counted\<close>

lemma grid_setitem_dims:
  assumes "grid_setitem g p v = Inr g'" "wf_grid g"
  shows "wf_grid g' \<and> grid_width g' = grid_width g \<and> grid_height g' = grid_height g"
  using assms by (auto simp: grid_setitem_def wf_grid_def split: if_splits)

lemma inc_col_dims:
  assumes "inc_col g i js = Inr g'" "wf_grid g"
  shows "wf_grid g' \<and> grid_width g' = grid_width g \<and> grid_height g' = grid_height g"
  using assms
proof (induction js arbitrary: g)
  case Nil
  then show ?case by simp
next
  case (Cons j js)
  from Cons.prems(1) obtain v g1 where s: "grid_setitem g (i, j) (v + 1) = Inr g1"
      and r: "inc_col g1 i js = Inr g'"
    by (auto split: sum.splits)
  from grid_setitem_dims [OF s Cons.prems(2)] Cons.IH [OF r] show ?case by simp
qed

lemma inc_rect_dims:
  assumes "inc_rect g is js = Inr g'" "wf_grid g"
  shows "wf_grid g' \<and> grid_width g' = grid_width g \<and> grid_height g' = grid_height g"
  using assms
proof (induction "is" arbitrary: g)
  case Nil
  then show ?case by simp
next
  case (Cons i "is")
  from Cons.prems(1) obtain g1 where s: "inc_col g i js = Inr g1"
      and r: "inc_rect g1 is js = Inr g'"
    by (auto split: sum.splits)
  from inc_col_dims [OF s Cons.prems(2)] Cons.IH [OF r] show ?case by simp
qed

lemma read_line_dims:
  assumes "read_line st l = Inr st'" "wf_grid (fabric st)"
  shows "wf_grid (fabric st') \<and> grid_width (fabric st') = grid_width (fabric st) \<and>
         grid_height (fabric st') = grid_height (fabric st) \<and> printed st' = printed st"
proof -
  from assms(1) obtain req r g where a: "accumulate (fabric st) r = Inr g"
      and st': "st' = st\<lparr>fabric := g, claims := AList.update req r (claims st)\<rparr>"
    by (auto simp: read_line_def split: sum.splits prod.splits)
  obtain x y w h where r: "r = (x, y, w, h)" by (cases r) auto
  from a r have "inc_rect (fabric st) [x ..< x + w] [y ..< y + h] = Inr g"
    by (simp add: accumulate_def)
  from inc_rect_dims [OF this assms(2)] st' show ?thesis by simp
qed

lemma read_file_dims:
  assumes "read_file st ls = Inr st'" "wf_grid (fabric st)"
  shows "wf_grid (fabric st') \<and> grid_width (fabric st') = grid_width (fabric st) \<and>
         grid_height (fabric st') = grid_height (fabric st) \<and> printed st' = printed st"
  using assms
proof (induction ls arbitrary: st)
  case Nil
  then show ?case by simp
next
  case (Cons l ls)
  from Cons.prems(1) obtain st1 where s: "read_line st l = Inr st1"
      and r: "read_file st1 ls = Inr st'"
    by (auto split: sum.splits)
  from read_line_dims [OF s Cons.prems(2)] Cons.IH [OF r] show ?case by simp
qed

lemma part_one_printed:
  assumes "wf_grid (fabric st)"
  shows "part_one st = st\<lparr>printed := printed st @
           [PartOne (int (card {p. in_grid (fabric st) p \<and> 1 < cell_of (fabric st) p}))]\<rparr>"
  using count_cells [OF assms, of "\<lambda>i. i > 1"] by (simp add: part_one_def)

lemma set_rect_cells: "set (rect_cells r) = {p. in_rect r p}"
  by (cases r) (auto simp: rect_cells_def in_rect_def)

lemma unshared_iff: "unshared cs c \<longleftrightarrow> (\<forall>p. in_rect (snd c) p \<longrightarrow> cover cs p = 1)"
  by (simp add: unshared_def list_all_iff set_rect_cells)

lemma in_rect_inside: "inside r \<Longrightarrow> in_rect r p \<Longrightarrow> fst p < width \<and> snd p < width"
  by (cases r) (auto simp: inside_def in_rect_def)

lemma overlap_cells_card:
  assumes "\<forall>c\<in>set cs. inside (snd c)"
  shows "card {p. fst p < width \<and> snd p < width \<and> 1 < cover cs p} = length (overlap_cells cs)"
proof -
  have "set (overlap_cells cs) = {p. fst p < width \<and> snd p < width \<and> 1 < cover cs p}"
  proof (intro set_eqI iffI)
    fix p
    assume "p \<in> set (overlap_cells cs)"
    then have c: "1 < cover cs p" and "\<exists>c\<in>set cs. in_rect (snd c) p"
      by (auto simp: overlap_cells_def set_rect_cells)
    then obtain c where "c \<in> set cs" "in_rect (snd c) p" by blast
    with assms in_rect_inside have "fst p < width \<and> snd p < width" by blast
    with c show "p \<in> {p. fst p < width \<and> snd p < width \<and> 1 < cover cs p}" by simp
  next
    fix p
    assume "p \<in> {p. fst p < width \<and> snd p < width \<and> 1 < cover cs p}"
    then have c: "1 < cover cs p" by simp
    then have "cover cs p \<noteq> 0" by simp
    then have "\<exists>c\<in>set cs. in_rect (snd c) p" by (simp add: cover_zero_iff)
    with c show "p \<in> set (overlap_cells cs)"
      by (auto simp: overlap_cells_def set_rect_cells)
  qed
  moreover have "distinct (overlap_cells cs)" by (simp add: overlap_cells_def)
  ultimately show ?thesis using distinct_card by fastforce
qed

section \<open>The whole run\<close>

lemma part_two_result:
  assumes "\<forall>c\<in>set (claims st). fits (fabric st) (snd c)"
  shows "part_two st =
         Inr (case find (\<lambda>c. \<forall>p. in_rect (snd c) p \<longrightarrow> cell_of (fabric st) p = 1) (claims st) of
                None \<Rightarrow> st
              | Some c \<Rightarrow> st\<lparr>printed := printed st @ [PartTwo (fst c)]\<rparr>)"
  unfolding part_two_def find_claim_ok [OF assms]
  by (simp split: option.splits)

lemma main_ok:
  assumes "map parse_line lines = map Inr cs" "\<forall>c\<in>set cs. inside (snd c)"
  shows "main lines =
         (PartOne (int (card {p. fst p < width \<and> snd p < width \<and> 1 < cover cs p})) #
          (case find (\<lambda>c. \<forall>p. in_rect (snd c) p \<longrightarrow> cover cs p = 1) (dict_of cs) of
             None \<Rightarrow> []
           | Some c \<Rightarrow> [PartTwo (fst c)]), None)"
proof -
  from read_init [OF assms]
  obtain st where st: "read_file init_state lines = Inr st" "wf_grid (fabric st)"
      "grid_width (fabric st) = width" "grid_height (fabric st) = width"
      "claims st = dict_of cs" "printed st = []"
      "\<forall>q. fst q < width \<and> snd q < width \<longrightarrow> cell_of (fabric st) q = cover cs q"
    by blast
  let ?n = "int (card {p. fst p < width \<and> snd p < width \<and> 1 < cover cs p})"
  have "{p. in_grid (fabric st) p \<and> 1 < cell_of (fabric st) p} =
        {p. fst p < width \<and> snd p < width \<and> 1 < cover cs p}"
    using st(3,4,7) by (auto simp: in_grid_def)
  with part_one_printed [OF st(2)] st(6)
  have p1: "part_one st = st\<lparr>printed := [PartOne ?n]\<rparr>" by simp
  let ?st1 = "st\<lparr>printed := [PartOne ?n]\<rparr>"
  have fit: "\<forall>c\<in>set (claims ?st1). fits (fabric ?st1) (snd c)"
    using st(3,4,5) assms(2) dict_of_set [of cs] by (auto intro: inside_fits)
  have same: "(\<forall>p. in_rect (snd c) p \<longrightarrow> cell_of (fabric st) p = 1) =
              (\<forall>p. in_rect (snd c) p \<longrightarrow> cover cs p = 1)" if "c \<in> set (dict_of cs)" for c
  proof -
    from that dict_of_set assms(2) have "inside (snd c)" by blast
    then have "cell_of (fabric st) p = cover cs p" if "in_rect (snd c) p" for p
      using in_rect_inside [OF _ that] st(7) by blast
    then show ?thesis by auto
  qed
  have f: "find (\<lambda>c. \<forall>p. in_rect (snd c) p \<longrightarrow> cell_of (fabric st) p = 1) (dict_of cs) =
           find (\<lambda>c. \<forall>p. in_rect (snd c) p \<longrightarrow> cover cs p = 1) (dict_of cs)"
    by (rule find_cong [OF refl]) (rule same)
  from part_two_result [OF fit] f st(5)
  have p2: "part_two ?st1 =
      Inr (case find (\<lambda>c. \<forall>p. in_rect (snd c) p \<longrightarrow> cover cs p = 1) (dict_of cs) of
             None \<Rightarrow> ?st1
           | Some c \<Rightarrow> ?st1\<lparr>printed := printed ?st1 @ [PartTwo (fst c)]\<rparr>)"
    by simp
  show ?thesis
    unfolding main_def st(1) by (simp add: p1 p2 Let_def split: option.splits)
qed

lemma main_sparse:
  assumes "map parse_line lines = map Inr cs" "\<forall>c\<in>set cs. inside (snd c)"
  shows "main lines =
         (PartOne (int (length (overlap_cells cs))) #
          (case find (unshared cs) (dict_of cs) of
             None \<Rightarrow> []
           | Some c \<Rightarrow> [PartTwo (fst c)]), None)"
proof -
  have "unshared cs = (\<lambda>c. \<forall>p. in_rect (snd c) p \<longrightarrow> cover cs p = 1)"
    by (rule ext) (rule unshared_iff)
  with main_ok [OF assms] overlap_cells_card [OF assms(2)] show ?thesis by simp
qed

lemma example_parse:
  "map parse_line example_lines = map Inr [(1, 1, 3, 4, 4), (2, 3, 1, 4, 4), (3, 5, 5, 2, 2)]"
  by (simp add: example_lines_def parse_line_def match_at_def digits_def ascii_def
      is_digit_low py_int_def digit_val_low)

lemma example_inside:
  "\<forall>c\<in>set [(1::nat, 1::nat, 3::nat, 4::nat, 4::nat), (2, 3, 1, 4, 4), (3, 5, 5, 2, 2)].
     inside (snd c)"
  by (simp add: inside_def width_def)

lemma example_overlap:
  "length (overlap_cells [(1, 1, 3, 4, 4), (2, 3, 1, 4, 4), (3, 5, 5, 2, 2)]) = 4"
  by code_simp

lemma example_unshared:
  "find (unshared [(1, 1, 3, 4, 4), (2, 3, 1, 4, 4), (3, 5, 5, 2, 2)])
     (dict_of [(1, 1, 3, 4, 4), (2, 3, 1, 4, 4), (3, 5, 5, 2, 2)]) = Some (3, 5, 5, 2, 2)"
  by code_simp

lemma main_example: "main example_lines = ([PartOne 4, PartTwo 3], None)"
  by (simp only: main_sparse [OF example_parse example_inside] example_overlap example_unshared)
    simp

lemma getitem_in_box:
  assumes "grid_width g = width" "grid_height g = width" "i < width" "j < width"
  shows "grid_getitem g (i, j) = Inr (cell_of g (i, j))"
  using assms by (simp add: grid_getitem_cell in_grid_def)

lemma example_grid:
  assumes "read_file init_state example_lines = Inr st"
  shows "grid_getitem (fabric st) (3, 3) = Inr 2"
    and "grid_getitem (fabric st) (5, 5) = Inr 1"
    and "grid_getitem (fabric st) (0, 0) = Inr 0"
proof -
  let ?cs = "[(1::nat, 1::nat, 3::nat, 4::nat, 4::nat), (2, 3, 1, 4, 4), (3, 5, 5, 2, 2)]"
  from read_init [OF example_parse example_inside] assms
  have st: "grid_width (fabric st) = width" "grid_height (fabric st) = width"
      "\<forall>q. fst q < width \<and> snd q < width \<longrightarrow> cell_of (fabric st) q = cover ?cs q"
    by auto
  have c: "cell_of (fabric st) (i, j) = cover ?cs (i, j)" if "i < width" "j < width" for i j
    using st(3) that by simp
  have b: "(3::nat) < width" "(5::nat) < width" "(0::nat) < width" by (simp_all add: width_def)
  show "grid_getitem (fabric st) (3, 3) = Inr 2"
    using getitem_in_box [OF st(1,2) b(1) b(1)] c [OF b(1) b(1)]
    by (simp add: cover_def in_rect_def)
  show "grid_getitem (fabric st) (5, 5) = Inr 1"
    using getitem_in_box [OF st(1,2) b(2) b(2)] c [OF b(2) b(2)]
    by (simp add: cover_def in_rect_def)
  show "grid_getitem (fabric st) (0, 0) = Inr 0"
    using getitem_in_box [OF st(1,2) b(3) b(3)] c [OF b(3) b(3)]
    by (simp add: cover_def in_rect_def)
qed

section \<open>A repeated id\<close>


section \<open>The state after the two parts\<close>

lemma part_two_fabric:
  assumes "part_two st = Inr st'"
  shows "fabric st' = fabric st \<and> claims st' = claims st"
  using assms by (auto simp: part_two_def split: sum.splits option.splits)

section \<open>The first printed line\<close>

lemma part_two_printed:
  assumes "part_two st = Inr st'"
  shows "\<exists>rest. printed st' = printed st @ rest"
  using assms by (auto simp: part_two_def split: sum.splits option.splits)

lemma main_first_line:
  assumes "read_file init_state lines = Inr st"
  shows "\<exists>rest e. main lines =
           (PartOne (int (card {p. in_grid (fabric st) p \<and> 1 < cell_of (fabric st) p})) # rest, e)"
proof -
  from read_file_dims [OF assms wf_init]
  have wf: "wf_grid (fabric st)" and pr: "printed st = []"
    by (simp_all add: init_state_def)
  let ?n = "int (card {p. in_grid (fabric st) p \<and> 1 < cell_of (fabric st) p})"
  from part_one_printed [OF wf] pr
  have p1: "printed (part_one st) = [PartOne ?n]" by simp
  show ?thesis
  proof (cases "part_two (part_one st)")
    case (Inl e)
    with assms p1 show ?thesis by (simp add: main_def Let_def)
  next
    case (Inr st2)
    from part_two_printed [OF Inr] p1 obtain rest where "printed st2 = PartOne ?n # rest"
      by auto
    with assms Inr show ?thesis by (simp add: main_def Let_def)
  qed
qed

section \<open>The search of part two\<close>

lemma find_claim_early_exit:
  assumes "\<forall>d\<in>set pre. fits g (snd d) \<and> (\<exists>p. in_rect (snd d) p \<and> cell_of g p \<noteq> 1)"
    and "fits g (snd c)" "\<forall>p. in_rect (snd c) p \<longrightarrow> cell_of g p = 1"
  shows "find_claim g (pre @ c # rest) = Inr (Some (fst c))"
  using assms(1)
proof (induction pre)
  case Nil
  obtain req x y w h where c: "c = (req, x, y, w, h)" by (cases c) auto
  from assms(2,3) c have "check_rect g [x ..< x + w] [y ..< y + h] = Inr True"
    by (simp add: check_rect_fits)
  with c show ?case by simp
next
  case (Cons d pre)
  obtain req x y w h where d: "d = (req, x, y, w, h)" by (cases d) auto
  from Cons.prems d have "fits g (x, y, w, h)" "\<exists>p. in_rect (x, y, w, h) p \<and> cell_of g p \<noteq> 1"
    by simp_all
  then have "check_rect g [x ..< x + w] [y ..< y + h] = Inr False"
    by (simp add: check_rect_fits)
  with Cons d show ?case by simp
qed

lemma wins_grid_iff:
  assumes "grid_width g = width" "grid_height g = width" "inside r"
    and "\<forall>q. fst q < width \<and> snd q < width \<longrightarrow> cell_of g q = cover cs q"
  shows "(\<forall>i j. in_rect r (i, j) \<longrightarrow> grid_getitem g (i, j) = Inr 1) \<longleftrightarrow>
         (\<forall>p. in_rect r p \<longrightarrow> cover cs p = 1)"
proof -
  have "grid_getitem g (i, j) = Inr (cover cs (i, j))" if "in_rect r (i, j)" for i j
  proof -
    from in_rect_inside [OF assms(3) that] have b: "i < width" "j < width" by simp_all
    with assms(4) have "cell_of g (i, j) = cover cs (i, j)" by simp
    with getitem_in_box [OF assms(1,2) b] show ?thesis by simp
  qed
  then show ?thesis by auto
qed

lemma find_Some_mem: "find P xs = Some x \<Longrightarrow> x \<in> set xs"
  by (induction xs) (auto split: if_splits)

section \<open>Past the edge of the grid\<close>

text \<open>
  One column further there is an exception: the container does raise when the
  rectangle leaves the grid, so ending without one at the edge says something.
\<close>

lemma past_the_edge: "accumulate (fabric init_state) (1000, 0, 1, 1) = Inl IndexError"
  by (simp add: accumulate_def grid_getitem_def in_grid_def dims_init width_def)

section \<open>The claims of the specification\<close>

text \<open>
  Claim C5. A line that holds the text \<^verbatim>\<open>#<id> @ <x>,<y>: <w>x<h>\<close>, each field a
  string of one or more decimal digits (of any script), parses to the five numbers in
  that order: the id is the number that follows \<^verbatim>\<open>#\<close>, and the other four are the
  decimal fields. The claim text may be followed by text that does not begin with a
  digit (the newline that ends the line), and may stand after text without \<^verbatim>\<open>#\<close>,
  code point 35.
\<close>

theorem parse_line_claim:
  assumes "digit_string a" "digit_string b" "digit_string c" "digit_string d" "digit_string e"
    and "35 \<notin> set pre" and "takeWhile is_digit post = []"
  shows "parse_line (pre @ claim_text a b c d e @ post) =
         Inr (py_int a, py_int b, py_int c, py_int d, py_int e)"
proof -
  from search_claim_text [OF assms(1-5), of post] assms(7)
  have "search (claim_text a b c d e @ post) = Some (a, b, c, d, e)" by simp
  with search_skip [OF assms(6)]
  have "search (pre @ claim_text a b c d e @ post) = Some (a, b, c, d, e)" by simp
  then show ?thesis by (simp add: parse_line_def)
qed

theorem parse_line_claim_witness:
  "parse_line (ascii ''#123 @ 3,2: 5x4'' @ [10]) = Inr (123, 3, 2, 5, 4) \<and>
   parse_line ([35, 1633] @ ascii '' @ 3,2: 5x4'' @ [10]) = Inr (1, 3, 2, 5, 4)"
proof -
  have d: "digit_string (ascii ''123'')" "digit_string (ascii ''3'')"
      "digit_string (ascii ''2'')" "digit_string (ascii ''5'')" "digit_string (ascii ''4'')"
    by (simp_all add: digit_string_def ascii_def is_digit_low)
  have u: "digit_string [1633]"
    by (simp add: digit_string_def arabic_indic_one)
  have p: "35 \<notin> set ([] :: ustr)" by simp
  have q: "takeWhile is_digit [10] = []" by (simp add: is_digit_low)
  from parse_line_claim [OF d p q]
  have "parse_line (ascii ''#123 @ 3,2: 5x4'' @ [10]) = Inr (123, 3, 2, 5, 4)"
    by (simp add: claim_text_def ascii_def py_int_def digit_val_low)
  moreover from parse_line_claim [OF u d(2-5) p q]
  have "parse_line ([35, 1633] @ ascii '' @ 3,2: 5x4'' @ [10]) = Inr (1, 3, 2, 5, 4)"
    by (simp add: claim_text_def ascii_def py_int_def digit_val_low arabic_indic_one)
  ultimately show ?thesis by simp
qed




text \<open>
  Claim C2. When every line parses, the ids are unique and every rectangle lies inside
  the 1000 by 1000 grid, the reading loop ends without an exception, the dictionary
  holds the claims as they were read, and every cell of the grid holds the number of
  claims whose rectangle contains it. That number is not negative, and it is 0 for a
  cell that no rectangle contains.
\<close>

theorem accumulation_counts:
  assumes "map parse_line lines = map Inr cs" "distinct (map fst cs)"
    "\<forall>c\<in>set cs. inside (snd c)"
  shows "\<exists>st. read_file init_state lines = Inr st \<and> claims st = cs \<and>
           (\<forall>i j. i < 1000 \<and> j < 1000 \<longrightarrow>
              grid_getitem (fabric st) (i, j) =
                Inr (int (length (filter (\<lambda>c. in_rect (snd c) (i, j)) (claims st)))) \<and>
              0 \<le> cell_of (fabric st) (i, j) \<and>
              ((\<forall>c\<in>set (claims st). \<not> in_rect (snd c) (i, j)) \<longrightarrow>
                 grid_getitem (fabric st) (i, j) = Inr 0))"
proof -
  from read_init [OF assms(1,3)]
  obtain st where st: "read_file init_state lines = Inr st"
      "grid_width (fabric st) = width" "grid_height (fabric st) = width"
      "claims st = dict_of cs"
      "\<forall>q. fst q < width \<and> snd q < width \<longrightarrow> cell_of (fabric st) q = cover cs q"
    by blast
  from st(4) assms(2) have cl: "claims st = cs" by (simp add: dict_of_distinct)
  have cells: "grid_getitem (fabric st) (i, j) = Inr (cover cs (i, j)) \<and>
               cell_of (fabric st) (i, j) = cover cs (i, j)"
    if "i < 1000 \<and> j < 1000" for i j
  proof -
    from that have b: "i < width" "j < width" by (simp_all add: width_def)
    with st(5) have "cell_of (fabric st) (i, j) = cover cs (i, j)" by simp
    with getitem_in_box [OF st(2,3) b] show ?thesis by simp
  qed
  have "grid_getitem (fabric st) (i, j) =
          Inr (int (length (filter (\<lambda>c. in_rect (snd c) (i, j)) (claims st)))) \<and>
        0 \<le> cell_of (fabric st) (i, j) \<and>
        ((\<forall>c\<in>set (claims st). \<not> in_rect (snd c) (i, j)) \<longrightarrow>
           grid_getitem (fabric st) (i, j) = Inr 0)"
    if "i < 1000 \<and> j < 1000" for i j
    using cells [OF that] cl cover_nonneg [of cs "(i, j)"] cover_zero_iff [of cs "(i, j)"]
    by (simp add: cover_def)
  with st(1) cl show ?thesis by blast
qed

theorem accumulation_counts_witness:
  "\<exists>st. read_file init_state example_lines = Inr st \<and>
     claims st = [(1, 1, 3, 4, 4), (2, 3, 1, 4, 4), (3, 5, 5, 2, 2)] \<and>
     grid_getitem (fabric st) (3, 3) = Inr 2 \<and>
     grid_getitem (fabric st) (5, 5) = Inr 1 \<and>
     grid_getitem (fabric st) (0, 0) = Inr 0"
proof -
  have d: "distinct (map fst [(1::nat, 1::nat, 3::nat, 4::nat, 4::nat), (2, 3, 1, 4, 4),
      (3, 5, 5, 2, 2)])"
    by simp
  from accumulation_counts [OF example_parse d example_inside]
  obtain st where st: "read_file init_state example_lines = Inr st"
      "claims st = [(1, 1, 3, 4, 4), (2, 3, 1, 4, 4), (3, 5, 5, 2, 2)]"
      "\<forall>i j. i < 1000 \<and> j < 1000 \<longrightarrow>
          grid_getitem (fabric st) (i, j) =
            Inr (int (length (filter (\<lambda>c. in_rect (snd c) (i, j)) (claims st))))"
    by blast
  from st(3) have "grid_getitem (fabric st) (3, 3) =
      Inr (int (length (filter (\<lambda>c. in_rect (snd c) (3, 3)) (claims st))))"
    by simp
  then have a: "grid_getitem (fabric st) (3, 3) = Inr 2"
    by (simp add: st(2) in_rect_def)
  from st(3) have "grid_getitem (fabric st) (5, 5) =
      Inr (int (length (filter (\<lambda>c. in_rect (snd c) (5, 5)) (claims st))))"
    by simp
  then have b: "grid_getitem (fabric st) (5, 5) = Inr 1"
    by (simp add: st(2) in_rect_def)
  from st(3) have "grid_getitem (fabric st) (0, 0) =
      Inr (int (length (filter (\<lambda>c. in_rect (snd c) (0, 0)) (claims st))))"
    by simp
  then have c: "grid_getitem (fabric st) (0, 0) = Inr 0"
    by (simp add: st(2) in_rect_def)
  from st(1,2) a b c show ?thesis by blast
qed

text \<open>
  Claim C7. Reading the same lines a second time, starting from the grid that the first
  reading left and not from an empty one, ends without an exception and leaves every
  cell of the grid with twice the count that it had after the first reading. A cell
  that a claim covers had a count above 0, so the second reading changes it: the
  accumulation adds, it is not idempotent.
\<close>

theorem accumulation_twice_doubles:
  assumes "map parse_line lines = map Inr cs" "\<forall>c\<in>set cs. inside (snd c)"
  shows "\<exists>st1 st2. read_file init_state lines = Inr st1 \<and> read_file st1 lines = Inr st2 \<and>
           (\<forall>i j. i < 1000 \<and> j < 1000 \<longrightarrow>
              (\<exists>v. grid_getitem (fabric st1) (i, j) = Inr v \<and>
                   grid_getitem (fabric st2) (i, j) = Inr (2 * v) \<and>
                   ((\<exists>c\<in>set cs. in_rect (snd c) (i, j)) \<longrightarrow> 0 < v \<and> 2 * v \<noteq> v)))"
proof -
  from read_init [OF assms]
  obtain st1 where st1: "read_file init_state lines = Inr st1" "wf_grid (fabric st1)"
      "grid_width (fabric st1) = width" "grid_height (fabric st1) = width"
      "\<forall>q. fst q < width \<and> snd q < width \<longrightarrow> cell_of (fabric st1) q = cover cs q"
    by blast
  from assms(2) st1(3,4) have fit: "\<forall>c\<in>set cs. fits (fabric st1) (snd c)"
    by (simp add: inside_fits)
  from read_file_ok [OF st1(2) assms(1) fit]
  obtain st2 where st2: "read_file st1 lines = Inr st2"
      "grid_width (fabric st2) = grid_width (fabric st1)"
      "grid_height (fabric st2) = grid_height (fabric st1)"
      "\<forall>q. in_grid (fabric st1) q \<longrightarrow>
          cell_of (fabric st2) q = cell_of (fabric st1) q + cover cs q"
    by blast
  have "\<exists>v. grid_getitem (fabric st1) (i, j) = Inr v \<and>
            grid_getitem (fabric st2) (i, j) = Inr (2 * v) \<and>
            ((\<exists>c\<in>set cs. in_rect (snd c) (i, j)) \<longrightarrow> 0 < v \<and> 2 * v \<noteq> v)"
    if "i < 1000 \<and> j < 1000" for i j
  proof -
    from that have b: "i < width" "j < width" by (simp_all add: width_def)
    with st1(5) have v: "cell_of (fabric st1) (i, j) = cover cs (i, j)" by simp
    from b st1(3,4) have "in_grid (fabric st1) (i, j)" by (simp add: in_grid_def)
    with st2(4) have "cell_of (fabric st2) (i, j) = cell_of (fabric st1) (i, j) + cover cs (i, j)"
      by blast
    with v have w: "cell_of (fabric st2) (i, j) = 2 * cover cs (i, j)" by simp
    have g1: "grid_getitem (fabric st1) (i, j) = Inr (cover cs (i, j))"
      using getitem_in_box [OF st1(3,4) b] v by simp
    have g2: "grid_getitem (fabric st2) (i, j) = Inr (2 * cover cs (i, j))"
      using getitem_in_box [of "fabric st2" i j] st2(2,3) st1(3,4) b w by simp
    have "(\<exists>c\<in>set cs. in_rect (snd c) (i, j)) \<longrightarrow> 0 < cover cs (i, j)"
      using cover_zero_iff [of cs "(i, j)"] cover_nonneg [of cs "(i, j)"] by force
    with g1 g2 show ?thesis by fastforce
  qed
  with st1(1) st2(1) show ?thesis by blast
qed

theorem accumulation_twice_doubles_witness:
  "\<exists>st1 st2. read_file init_state example_lines = Inr st1 \<and>
     read_file st1 example_lines = Inr st2 \<and>
     grid_getitem (fabric st1) (3, 3) = Inr 2 \<and> grid_getitem (fabric st2) (3, 3) = Inr 4"
proof -
  from accumulation_twice_doubles [OF example_parse example_inside]
  obtain st1 st2 where s: "read_file init_state example_lines = Inr st1"
      "read_file st1 example_lines = Inr st2"
      "\<forall>i j. i < 1000 \<and> j < 1000 \<longrightarrow>
          (\<exists>v. grid_getitem (fabric st1) (i, j) = Inr v \<and>
               grid_getitem (fabric st2) (i, j) = Inr (2 * v))"
    by blast
  from s(3) obtain v where v: "grid_getitem (fabric st1) (3, 3) = Inr v"
      "grid_getitem (fabric st2) (3, 3) = Inr (2 * v)"
    by force
  from example_grid(1) [OF s(1)] have "grid_getitem (fabric st1) (3, 3) = Inr 2" .
  with v have "v = 2" by simp
  with v s(1,2) show ?thesis by auto
qed

text \<open>
  Claim C8. On a grid of 1000 by 1000 cells, accumulating a claim of width 1 and height
  1 whose cell is in the grid ends without an exception, adds one to that cell and
  leaves every other cell as it was. Accumulating a claim that ends flush against the
  right edge (x + w = 1000, with y + h at most 1000) ends without an exception as well,
  and the claim is accumulated in full: every cell of its rectangle, those of column
  999 included, reads one more than before, and every other cell reads what it read
  before. No access is out of bounds.
\<close>

theorem boundary_claims:
  assumes "wf_grid g" "grid_width g = width" "grid_height g = width"
  shows "(x < 1000 \<and> y < 1000 \<longrightarrow>
           (\<exists>g'. accumulate g (x, y, 1, 1) = Inr g' \<and>
                 grid_getitem g' (x, y) = Inr (cell_of g (x, y) + 1) \<and>
                 (\<forall>p. in_grid g p \<and> p \<noteq> (x, y) \<longrightarrow> grid_getitem g' p = grid_getitem g p))) \<and>
         (x + w = 1000 \<and> y + h \<le> 1000 \<longrightarrow>
           (\<exists>g'. accumulate g (x, y, w, h) = Inr g' \<and>
                 (\<forall>p v. grid_getitem g p = Inr v \<longrightarrow>
                    grid_getitem g' p =
                      Inr (v + (if in_rect (x, y, w, h) p then 1 else 0)))))"
proof (intro conjI impI)
  assume xy: "x < 1000 \<and> y < 1000"
  with assms(2,3) have fit: "fits g (x, y, 1, 1)" by (simp add: fits_def width_def)
  from accumulate_ok [OF assms(1) fit]
  obtain g' where g': "accumulate g (x, y, 1, 1) = Inr g'"
      "grid_width g' = grid_width g" "grid_height g' = grid_height g"
      "\<forall>q. in_grid g q \<longrightarrow>
          cell_of g' q = cell_of g q + (if in_rect (x, y, 1, 1) q then 1 else 0)"
    by blast
  have one: "in_rect (x, y, 1, 1) q \<longleftrightarrow> q = (x, y)" for q
    by (cases q) (auto simp: in_rect_def)
  have same: "in_grid g' q = in_grid g q" for q
    using g'(2,3) by (simp add: in_grid_def)
  from xy assms(2,3) have ing: "in_grid g (x, y)" by (simp add: in_grid_def width_def)
  with g'(4)
  have "cell_of g' (x, y) = cell_of g (x, y) + (if in_rect (x, y, 1, 1) (x, y) then 1 else 0)"
    by blast
  then have "cell_of g' (x, y) = cell_of g (x, y) + 1" by (simp only: one) simp
  with ing same have a: "grid_getitem g' (x, y) = Inr (cell_of g (x, y) + 1)"
    by (simp add: grid_getitem_cell)
  have b: "grid_getitem g' p = grid_getitem g p" if "in_grid g p \<and> p \<noteq> (x, y)" for p
  proof -
    from that g'(4)
    have "cell_of g' p = cell_of g p + (if in_rect (x, y, 1, 1) p then 1 else 0)" by blast
    with that have "cell_of g' p = cell_of g p" by (simp only: one) simp
    with that same show ?thesis by (simp add: grid_getitem_cell)
  qed
  from g'(1) a b
  show "\<exists>g'. accumulate g (x, y, 1, 1) = Inr g' \<and>
          grid_getitem g' (x, y) = Inr (cell_of g (x, y) + 1) \<and>
          (\<forall>p. in_grid g p \<and> p \<noteq> (x, y) \<longrightarrow> grid_getitem g' p = grid_getitem g p)"
    by blast
next
  assume "x + w = 1000 \<and> y + h \<le> 1000"
  with assms(2,3) have "fits g (x, y, w, h)" by (simp add: fits_def width_def)
  from accumulate_ok [OF assms(1) this]
  obtain g' where g': "accumulate g (x, y, w, h) = Inr g'"
      "grid_width g' = grid_width g" "grid_height g' = grid_height g"
      "\<forall>q. in_grid g q \<longrightarrow>
          cell_of g' q = cell_of g q + (if in_rect (x, y, w, h) q then 1 else 0)"
    by blast
  have "grid_getitem g' p = Inr (v + (if in_rect (x, y, w, h) p then 1 else 0))"
    if "grid_getitem g p = Inr v" for p v
  proof -
    from that have ing: "in_grid g p" and v: "v = cell_of g p"
      by (auto simp: grid_getitem_def cell_of_def split: if_splits)
    from ing g'(2,3) have ing': "in_grid g' p" by (simp add: in_grid_def)
    from ing g'(4)
    have "cell_of g' p = cell_of g p + (if in_rect (x, y, w, h) p then 1 else 0)" by blast
    with ing' v show ?thesis by (simp only: grid_getitem_cell)
  qed
  with g'(1)
  show "\<exists>g'. accumulate g (x, y, w, h) = Inr g' \<and>
          (\<forall>p v. grid_getitem g p = Inr v \<longrightarrow>
             grid_getitem g' p = Inr (v + (if in_rect (x, y, w, h) p then 1 else 0)))"
    by blast
qed

theorem boundary_claims_witness:
  "(\<exists>g'. accumulate (fabric init_state) (999, 999, 1, 1) = Inr g' \<and>
         grid_getitem g' (999, 999) = Inr 1 \<and> grid_getitem g' (998, 999) = Inr 0) \<and>
   (\<exists>g'. accumulate (fabric init_state) (996, 0, 4, 1000) = Inr g' \<and>
         grid_getitem g' (996, 0) = Inr 1 \<and> grid_getitem g' (999, 999) = Inr 1 \<and>
         grid_getitem g' (995, 0) = Inr 0)"
proof -
  have ing: "in_grid (fabric init_state) (999, 999)" "in_grid (fabric init_state) (998, 999)"
      "in_grid (fabric init_state) (996, 0)" "in_grid (fabric init_state) (995, 0)"
    by (simp_all add: in_grid_init width_def)
  have z: "grid_getitem (fabric init_state) (999, 999) = Inr 0"
      "grid_getitem (fabric init_state) (998, 999) = Inr 0"
      "grid_getitem (fabric init_state) (996, 0) = Inr 0"
      "grid_getitem (fabric init_state) (995, 0) = Inr 0"
    using ing by (simp_all add: grid_getitem_cell cell_init)
  from boundary_claims [OF wf_init dims_init, of 999 999 4 1000]
  obtain g1 where g1: "accumulate (fabric init_state) (999, 999, 1, 1) = Inr g1"
      "grid_getitem g1 (999, 999) = Inr (cell_of (fabric init_state) (999, 999) + 1)"
      "\<forall>p. in_grid (fabric init_state) p \<and> p \<noteq> (999, 999) \<longrightarrow>
          grid_getitem g1 p = grid_getitem (fabric init_state) p"
    by auto
  from g1(2) cell_init [OF ing(1)] have a: "grid_getitem g1 (999, 999) = Inr 1" by simp
  from g1(3) ing(2) have "grid_getitem g1 (998, 999) = grid_getitem (fabric init_state) (998, 999)"
    by simp
  with z(2) have b: "grid_getitem g1 (998, 999) = Inr 0" by simp
  from boundary_claims [OF wf_init dims_init, of 996 0 4 1000]
  obtain g2 where g2: "accumulate (fabric init_state) (996, 0, 4, 1000) = Inr g2"
      "\<forall>p v. grid_getitem (fabric init_state) p = Inr v \<longrightarrow>
          grid_getitem g2 p = Inr (v + (if in_rect (996, 0, 4, 1000) p then 1 else 0))"
    by auto
  from g2(2) z(3) have "grid_getitem g2 (996, 0) =
      Inr (0 + (if in_rect (996, 0, 4, 1000) (996, 0) then 1 else 0))" by blast
  then have c: "grid_getitem g2 (996, 0) = Inr 1" by (simp add: in_rect_def)
  from g2(2) z(1) have "grid_getitem g2 (999, 999) =
      Inr (0 + (if in_rect (996, 0, 4, 1000) (999, 999) then 1 else 0))" by blast
  then have d: "grid_getitem g2 (999, 999) = Inr 1" by (simp add: in_rect_def)
  from g2(2) z(4) have "grid_getitem g2 (995, 0) =
      Inr (0 + (if in_rect (996, 0, 4, 1000) (995, 0) then 1 else 0))" by blast
  then have e: "grid_getitem g2 (995, 0) = Inr 0" by (simp add: in_rect_def)
  from g1(1) a b g2(1) c d e show ?thesis by blast
qed



text \<open>
  Claim C9. The scan of part one and the check of part two only read the grid: the
  state after part one holds the grid and the claims it was given, and so does the
  state after part two when it ends without an exception. What the two parts change is
  the printed output. So the grid at the end of a run is the one the reading loop
  left, and the only writes to it are the increments of the accumulation.
\<close>

theorem scans_leave_grid:
  "fabric (part_one st) = fabric st \<and> claims (part_one st) = claims st \<and>
   (\<forall>st'. part_two st = Inr st' \<longrightarrow> fabric st' = fabric st \<and> claims st' = claims st) \<and>
   (\<forall>st'. part_two (part_one st) = Inr st' \<longrightarrow> fabric st' = fabric st)"
proof -
  have a: "fabric (part_one st) = fabric st" "claims (part_one st) = claims st"
    by (simp_all add: part_one_def Let_def)
  have b: "fabric st' = fabric st \<and> claims st' = claims st" if "part_two st = Inr st'" for st'
    using part_two_fabric [OF that] .
  have c: "fabric st' = fabric st" if "part_two (part_one st) = Inr st'" for st'
    using part_two_fabric [OF that] a by simp
  from a b c show ?thesis by blast
qed

theorem scans_leave_grid_witness:
  "\<exists>st st'. read_file init_state example_lines = Inr st \<and>
     part_two (part_one st) = Inr st' \<and> fabric st' = fabric st \<and>
     printed st' = [PartOne 4, PartTwo 3]"
proof -
  from read_init [OF example_parse example_inside]
  obtain st where st: "read_file init_state example_lines = Inr st" by blast
  from main_example st
  obtain st' where st': "part_two (part_one st) = Inr st'" "printed st' = [PartOne 4, PartTwo 3]"
    by (auto simp: main_def Let_def split: sum.splits)
  from scans_leave_grid [of st] st'(1) have "fabric st' = fabric st" by blast
  with st st' show ?thesis by blast
qed

text \<open>
  Claim C3. Whenever the input is read without an exception, the first line the run
  prints is the count of part one, and that count is the number of cells of the 1000 by
  1000 grid whose value after the accumulation is above 1. It comes from one pass over
  the cells of the grid, all 1000000 of them, each visited once: it is the number of
  values above 1 among them. On the example of three claims the count is 4.
\<close>

theorem part_one_counts_overlaps:
  "(\<forall>st. read_file init_state lines = Inr st \<longrightarrow>
      (\<exists>n rest e. main lines = (PartOne n # rest, e) \<and>
         n = int (card {(i, j). i < 1000 \<and> j < 1000 \<and>
                         (\<exists>v. grid_getitem (fabric st) (i, j) = Inr v \<and> 1 < v)}) \<and>
         n = int (length (filter (\<lambda>v. v > 1) (grid_iter (fabric st)))) \<and>
         length (grid_iter (fabric st)) = 1000 * 1000)) \<and>
   (\<exists>rest. main example_lines = (PartOne 4 # rest, None))"
proof (intro conjI allI impI)
  fix st
  assume r: "read_file init_state lines = Inr st"
  from read_file_dims [OF r wf_init]
  have wf: "wf_grid (fabric st)" and w: "grid_width (fabric st) = width"
    and h: "grid_height (fabric st) = width"
    by (simp_all add: dims_init)
  let ?S = "{p. in_grid (fabric st) p \<and> 1 < cell_of (fabric st) p}"
  from main_first_line [OF r]
  obtain rest e where m: "main lines = (PartOne (int (card ?S)) # rest, e)" by blast
  have s: "?S = {(i, j). i < 1000 \<and> j < 1000 \<and>
                  (\<exists>v. grid_getitem (fabric st) (i, j) = Inr v \<and> 1 < v)}"
    using w h by (auto simp: grid_getitem_def in_grid_def cell_of_def width_def)
  have c: "int (card ?S) = int (length (filter (\<lambda>v. v > 1) (grid_iter (fabric st))))"
    using count_cells [OF wf, of "\<lambda>v. v > 1"] by (simp add: sum_list_ones)
  have l: "length (grid_iter (fabric st)) = 1000 * 1000"
    using wf w h by (simp add: wf_grid_def grid_iter_def width_def)
  from m s c l
  show "\<exists>n rest e. main lines = (PartOne n # rest, e) \<and>
         n = int (card {(i, j). i < 1000 \<and> j < 1000 \<and>
                         (\<exists>v. grid_getitem (fabric st) (i, j) = Inr v \<and> 1 < v)}) \<and>
         n = int (length (filter (\<lambda>v. v > 1) (grid_iter (fabric st)))) \<and>
         length (grid_iter (fabric st)) = 1000 * 1000"
    by (intro exI conjI) simp_all
next
  show "\<exists>rest. main example_lines = (PartOne 4 # rest, None)"
    by (simp add: main_example)
qed

theorem part_one_counts_overlaps_witness:
  "\<exists>st. read_file init_state example_lines = Inr st \<and>
     int (length (filter (\<lambda>v. v > 1) (grid_iter (fabric st)))) = 4 \<and>
     length (grid_iter (fabric st)) = 1000 * 1000"
proof -
  from read_init [OF example_parse example_inside]
  obtain st where st: "read_file init_state example_lines = Inr st" by blast
  from part_one_counts_overlaps [of example_lines] st
  obtain n rest e where n: "main example_lines = (PartOne n # rest, e)"
      "n = int (length (filter (\<lambda>v. v > 1) (grid_iter (fabric st))))"
      "length (grid_iter (fabric st)) = 1000 * 1000"
    by blast
  from n(1) main_example have "n = 4" by simp
  with n(2,3) st show ?thesis by auto
qed

text \<open>
  Claim C1. When every line parses, the ids are unique and every rectangle lies inside
  the grid, the claims are visited in the order of their lines, and the second printed
  line is the id of the first claim every cell of whose rectangle holds exactly 1 after
  the accumulation; there is no second line when no claim is such, and a claim with a
  cell that is not 1 is never printed. The run then ends normally. The search stops at
  that claim: whatever claims follow it, even ones whose check would raise, the result
  is the same, so they are not looked at. On the example of three claims the printed
  id is 3.
\<close>

theorem part_two_first_unshared:
  assumes "map parse_line lines = map Inr cs" "distinct (map fst cs)"
    "\<forall>c\<in>set cs. inside (snd c)"
  shows "(\<exists>st n. read_file init_state lines = Inr st \<and> claims st = cs \<and>
            main lines =
              (PartOne n #
               (case find (\<lambda>c. \<forall>i j. in_rect (snd c) (i, j) \<longrightarrow>
                                  grid_getitem (fabric st) (i, j) = Inr 1) cs of
                  None \<Rightarrow> []
                | Some c \<Rightarrow> [PartTwo (fst c)]), None)) \<and>
         (\<forall>g pre c rest.
            (\<forall>d\<in>set pre. fits g (snd d) \<and> (\<exists>p. in_rect (snd d) p \<and> cell_of g p \<noteq> 1)) \<and>
            fits g (snd c) \<and> (\<forall>p. in_rect (snd c) p \<longrightarrow> cell_of g p = 1) \<longrightarrow>
            find_claim g (pre @ c # rest) = Inr (Some (fst c))) \<and>
         (\<exists>n. main example_lines = ([PartOne n, PartTwo 3], None))"
proof (intro conjI)
  from read_init [OF assms(1,3)]
  obtain st where st: "read_file init_state lines = Inr st"
      "grid_width (fabric st) = width" "grid_height (fabric st) = width"
      "claims st = dict_of cs"
      "\<forall>q. fst q < width \<and> snd q < width \<longrightarrow> cell_of (fabric st) q = cover cs q"
    by blast
  from st(4) assms(2) have cl: "claims st = cs" by (simp add: dict_of_distinct)
  have f: "find (\<lambda>c. \<forall>i j. in_rect (snd c) (i, j) \<longrightarrow> grid_getitem (fabric st) (i, j) = Inr 1) cs =
           find (\<lambda>c. \<forall>p. in_rect (snd c) p \<longrightarrow> cover cs p = 1) cs"
  proof (rule find_cong [OF refl])
    fix c
    assume "c \<in> set cs"
    with assms(3) have "inside (snd c)" by blast
    from wins_grid_iff [OF st(2,3) this st(5)]
    show "(\<forall>i j. in_rect (snd c) (i, j) \<longrightarrow> grid_getitem (fabric st) (i, j) = Inr 1) =
          (\<forall>p. in_rect (snd c) p \<longrightarrow> cover cs p = 1)" .
  qed
  from main_ok [OF assms(1,3)] assms(2)
  have "main lines =
      (PartOne (int (card {p. fst p < width \<and> snd p < width \<and> 1 < cover cs p})) #
       (case find (\<lambda>c. \<forall>p. in_rect (snd c) p \<longrightarrow> cover cs p = 1) cs of
          None \<Rightarrow> []
        | Some c \<Rightarrow> [PartTwo (fst c)]), None)"
    by (simp add: dict_of_distinct)
  then have "main lines =
      (PartOne (int (card {p. fst p < width \<and> snd p < width \<and> 1 < cover cs p})) #
       (case find (\<lambda>c. \<forall>i j. in_rect (snd c) (i, j) \<longrightarrow>
                          grid_getitem (fabric st) (i, j) = Inr 1) cs of
          None \<Rightarrow> []
        | Some c \<Rightarrow> [PartTwo (fst c)]), None)"
    by (simp only: f)
  with st(1) cl
  show "\<exists>st n. read_file init_state lines = Inr st \<and> claims st = cs \<and>
          main lines =
            (PartOne n #
             (case find (\<lambda>c. \<forall>i j. in_rect (snd c) (i, j) \<longrightarrow>
                                grid_getitem (fabric st) (i, j) = Inr 1) cs of
                None \<Rightarrow> []
              | Some c \<Rightarrow> [PartTwo (fst c)]), None)"
    by blast
next
  show "\<forall>g pre c rest.
          (\<forall>d\<in>set pre. fits g (snd d) \<and> (\<exists>p. in_rect (snd d) p \<and> cell_of g p \<noteq> 1)) \<and>
          fits g (snd c) \<and> (\<forall>p. in_rect (snd c) p \<longrightarrow> cell_of g p = 1) \<longrightarrow>
          find_claim g (pre @ c # rest) = Inr (Some (fst c))"
    using find_claim_early_exit by blast
next
  show "\<exists>n. main example_lines = ([PartOne n, PartTwo 3], None)"
    by (simp add: main_example)
qed

theorem part_two_first_unshared_witness:
  "\<exists>st. read_file init_state example_lines = Inr st \<and>
     claims st = [(1, 1, 3, 4, 4), (2, 3, 1, 4, 4), (3, 5, 5, 2, 2)] \<and>
     find (\<lambda>c. \<forall>i j. in_rect (snd c) (i, j) \<longrightarrow> grid_getitem (fabric st) (i, j) = Inr 1)
       [(1::nat, 1, 3, 4, 4), (2, 3, 1, 4, 4), (3, 5, 5, 2, 2)] = Some (3, 5, 5, 2, 2) \<and>
     main example_lines = ([PartOne 4, PartTwo 3], None)"
proof -
  let ?cs = "[(1::nat, 1::nat, 3::nat, 4::nat, 4::nat), (2, 3, 1, 4, 4), (3, 5, 5, 2, 2)]"
  have d: "distinct (map fst ?cs)" by simp
  from part_two_first_unshared [OF example_parse d example_inside]
  obtain st n where st: "read_file init_state example_lines = Inr st" "claims st = ?cs"
      "main example_lines =
         (PartOne n #
          (case find (\<lambda>c. \<forall>i j. in_rect (snd c) (i, j) \<longrightarrow>
                             grid_getitem (fabric st) (i, j) = Inr 1) ?cs of
             None \<Rightarrow> []
           | Some c \<Rightarrow> [PartTwo (fst c)]), None)"
    by blast
  let ?P = "\<lambda>c. \<forall>i j. in_rect (snd c) (i, j) \<longrightarrow> grid_getitem (fabric st) (i, j) = Inr 1"
  from st(3) main_example
  have "(case find ?P ?cs of None \<Rightarrow> [] | Some c \<Rightarrow> [PartTwo (fst c)]) = [PartTwo 3]"
    by simp
  then obtain c where c: "find ?P ?cs = Some c" "fst c = 3"
    by (auto split: option.splits)
  from c(1) have "c \<in> set ?cs" by (rule find_Some_mem)
  with c(2) have "c = (3, 5, 5, 2, 2)" by auto
  with c(1) have "find ?P ?cs = Some (3, 5, 5, 2, 2)" by simp
  with st(1,2) main_example show ?thesis by (intro exI [of _ st] conjI)
qed

text \<open>
  Claim C6. When the input is read without an exception and every claim of the
  dictionary has a cell whose value in the grid is not 1, part two prints nothing and
  raises nothing: the run prints the line of part one alone and ends normally.
\<close>

theorem no_winner_prints_part_one_only:
  assumes "map parse_line lines = map Inr cs" "\<forall>c\<in>set cs. inside (snd c)"
    and "read_file init_state lines = Inr st"
    and "\<forall>c\<in>set (claims st). \<exists>i j. in_rect (snd c) (i, j) \<and>
           grid_getitem (fabric st) (i, j) \<noteq> Inr 1"
  shows "\<exists>n. main lines = ([PartOne n], None)"
proof -
  from read_init [OF assms(1,2)] assms(3)
  have st: "grid_width (fabric st) = width" "grid_height (fabric st) = width"
      "claims st = dict_of cs"
      "\<forall>q. fst q < width \<and> snd q < width \<longrightarrow> cell_of (fabric st) q = cover cs q"
    by auto
  have "\<not> (\<forall>p. in_rect (snd c) p \<longrightarrow> cover cs p = 1)" if "c \<in> set (dict_of cs)" for c
  proof -
    from that dict_of_set assms(2) have ins: "inside (snd c)" by blast
    from that assms(4) st(3)
    have "\<not> (\<forall>i j. in_rect (snd c) (i, j) \<longrightarrow> grid_getitem (fabric st) (i, j) = Inr 1)"
      by auto
    with wins_grid_iff [OF st(1,2) ins st(4)] show ?thesis by simp
  qed
  then have "find (\<lambda>c. \<forall>p. in_rect (snd c) p \<longrightarrow> cover cs p = 1) (dict_of cs) = None"
    unfolding find_None_iff by blast
  with main_ok [OF assms(1,2)] show ?thesis by simp
qed

theorem no_winner_prints_part_one_only_witness:
  "main [ascii ''#1 @ 0,0: 1x1'', ascii ''#2 @ 0,0: 1x1''] = ([PartOne 1], None)"
proof -
  let ?ls = "[ascii ''#1 @ 0,0: 1x1'', ascii ''#2 @ 0,0: 1x1'']"
  let ?cs = "[(1::nat, 0::nat, 0::nat, 1::nat, 1::nat), (2, 0, 0, 1, 1)]"
  have p: "map parse_line ?ls = map Inr ?cs"
    by (simp add: parse_line_def match_at_def digits_def ascii_def is_digit_low py_int_def
      digit_val_low)
  have i: "\<forall>c\<in>set ?cs. inside (snd c)"
    by (simp add: inside_def width_def)
  from read_init [OF p i]
  obtain st where st: "read_file init_state ?ls = Inr st"
      "grid_width (fabric st) = width" "grid_height (fabric st) = width"
      "claims st = dict_of ?cs"
      "\<forall>q. fst q < width \<and> snd q < width \<longrightarrow> cell_of (fabric st) q = cover ?cs q"
    by blast
  have z: "(0::nat) < width" by (simp add: width_def)
  from st(5) z have "cell_of (fabric st) (0, 0) = cover ?cs (0, 0)" by simp
  with getitem_in_box [OF st(2,3) z z]
  have g: "grid_getitem (fabric st) (0, 0) = Inr 2"
    by (simp add: cover_def in_rect_def)
  have cl: "claims st = ?cs" using st(4) by (simp add: dict_of_distinct)
  have h: "\<forall>c\<in>set (claims st). \<exists>i j. in_rect (snd c) (i, j) \<and>
             grid_getitem (fabric st) (i, j) \<noteq> Inr 1"
  proof
    fix c
    assume "c \<in> set (claims st)"
    with cl have "in_rect (snd c) (0, 0)" by (auto simp: in_rect_def)
    with g show "\<exists>i j. in_rect (snd c) (i, j) \<and> grid_getitem (fabric st) (i, j) \<noteq> Inr 1"
      by (intro exI [of _ 0] conjI) simp_all
  qed
  from no_winner_prints_part_one_only [OF p i st(1) h]
  obtain n where n: "main ?ls = ([PartOne n], None)" by blast
  have o: "length (overlap_cells ?cs) = 1" by code_simp
  from main_sparse [OF p i] n have "n = int (length (overlap_cells ?cs))" by simp
  with o have "n = 1" by simp
  with n show ?thesis by simp
qed

end
